theory Spec2Isabelle
  imports Complex_Main "HOL-Library.Word"
begin

section \<open>The iteration harness of scripts/iterate-client.js\<close>

text \<open>
  The harness drives a browser through an automation layer. The model follows the
  source function by function. JavaScript strings are \<open>string\<close>, the insertion-ordered
  \<open>Set\<close> of JavaScript is a duplicate-free list in insertion order, and a \<open>null\<close> result
  is \<open>None\<close>. An awaited call into the automation layer resolves or rejects: where the
  source catches the rejection the function goes on, and where it does not the
  exception leaves the function.
\<close>

subsection \<open>JavaScript sets\<close>

text \<open>\<open>Set.prototype.add\<close>, \<open>has\<close>, \<open>delete\<close> and \<open>size\<close>, and \<open>new Set(iterable)\<close>.\<close>

definition set_has :: "'a list \<Rightarrow> 'a \<Rightarrow> bool" where
  "set_has s x = (x \<in> set s)"

definition set_add :: "'a \<Rightarrow> 'a list \<Rightarrow> 'a list" where
  "set_add x s = (if set_has s x then s else s @ [x])"

definition set_delete :: "'a \<Rightarrow> 'a list \<Rightarrow> 'a list" where
  "set_delete x s = filter (\<lambda>y. y \<noteq> x) s"

definition set_size :: "'a list \<Rightarrow> nat" where
  "set_size s = length s"

definition new_Set :: "'a list \<Rightarrow> 'a list" where
  "new_Set xs = foldl (\<lambda>s x. set_add x s) [] xs"

subsection \<open>Console error records and their structural key\<close>

text \<open>
  The two listeners of \<open>main\<close> build the records \<open>{type, text}\<close>, both fields strings.
  \<open>JSON_stringify\<close> is \<open>JSON.stringify\<close> on such a record: the members in creation
  order, each string quoted with the escapes of the language standard.
\<close>

record err =
  err_type :: string
  err_text :: string

definition hex_digit :: "nat \<Rightarrow> char" where
  "hex_digit n = ''0123456789abcdef'' ! (n mod 16)"

definition quote_char :: "char \<Rightarrow> string" where
  "quote_char c =
     (let n = (of_char c :: nat) in
      if n = 8 then [CHR 0x5C, CHR ''b'']
      else if n = 9 then [CHR 0x5C, CHR ''t'']
      else if n = 10 then [CHR 0x5C, CHR ''n'']
      else if n = 12 then [CHR 0x5C, CHR ''f'']
      else if n = 13 then [CHR 0x5C, CHR ''r'']
      else if n = 34 then [CHR 0x5C, CHR 0x22]
      else if n = 92 then [CHR 0x5C, CHR 0x5C]
      else if n < 32 then [CHR 0x5C, CHR ''u'', CHR ''0'', CHR ''0'', hex_digit (n div 16), hex_digit n]
      else [c])"

definition quote_string :: "string \<Rightarrow> string" where
  "quote_string s = CHR 0x22 # concat (map quote_char s) @ [CHR 0x22]"

definition JSON_stringify :: "err \<Rightarrow> string" where
  "JSON_stringify e =
     ''{'' @ quote_string ''type'' @ '':'' @ quote_string (err_type e) @ '','' @
     quote_string ''text'' @ '':'' @ quote_string (err_text e) @ ''}''"

subsection \<open>ConsoleErrorTracker\<close>

record tracker =
  seen :: "string list"
  errors :: "err list"

definition new_tracker :: tracker where
  "new_tracker = \<lparr>seen = [], errors = []\<rparr>"

definition ingest :: "err \<Rightarrow> tracker \<Rightarrow> tracker" where
  "ingest e t =
     (let key = JSON_stringify e in
      if set_has (seen t) key then t
      else t\<lparr>seen := set_add key (seen t), errors := errors t @ [e]\<rparr>)"

definition drain :: "tracker \<Rightarrow> err list \<times> tracker" where
  "drain t = (errors t, t\<lparr>errors := []\<rparr>)"

definition count :: "tracker \<Rightarrow> nat" where
  "count t = length (errors t)"

text \<open>A history of calls on one tracker; the result lists the batches the drains returned.\<close>

datatype tracker_op = Ingest err | Drain

fun run_ops :: "tracker_op list \<Rightarrow> tracker \<Rightarrow> tracker \<times> err list list" where
  "run_ops [] t = (t, [])"
| "run_ops (Ingest e # ops) t = run_ops ops (ingest e t)"
| "run_ops (Drain # ops) t =
     (let r = run_ops ops (snd (drain t)) in (fst r, fst (drain t) # snd r))"

fun ingest_all :: "err list \<Rightarrow> tracker \<Rightarrow> tracker" where
  "ingest_all [] t = t"
| "ingest_all (e # es) t = ingest_all es (ingest e t)"

subsection \<open>Canvas detection\<close>

text \<open>
  A canvas element as the page-side code reads it: the backing-store size and the layout
  size, which the browser keeps as 32-bit integers and never negative. \<open>a || b\<close> on
  numbers takes \<open>b\<close> when \<open>a\<close> is zero. JavaScript numbers are doubles: the product of
  two doubles that hold integers is the exact product rounded to 53 significant bits,
  ties to even. \<open>to_double\<close> is that rounding on natural numbers; products of 32-bit
  values are far inside the range of a double.
\<close>

record canvas =
  width :: "32 word"
  height :: "32 word"
  clientWidth :: "32 word"
  clientHeight :: "32 word"

definition js_or :: "'a::zero \<Rightarrow> 'a \<Rightarrow> 'a" where
  "js_or a b = (if a \<noteq> 0 then a else b)"

fun bit_length :: "nat \<Rightarrow> nat" where
  "bit_length n = (if n = 0 then 0 else Suc (bit_length (n div 2)))"

declare bit_length.simps [simp del]

definition to_double :: "nat \<Rightarrow> nat" where
  "to_double n =
     (if n < 2 ^ 53 then n
      else (let e = bit_length n - 53; q = n div 2 ^ e; r = n mod 2 ^ e
            in (if 2 ^ (e - 1) < r \<or> (r = 2 ^ (e - 1) \<and> odd q) then q + 1 else q) * 2 ^ e))"

definition canvas_area :: "'a canvas_scheme \<Rightarrow> nat" where
  "canvas_area c =
     to_double (unat (js_or (width c) (js_or (clientWidth c) 0))
                * unat (js_or (height c) (js_or (clientHeight c) 0)))"

text \<open>
  The loop of \<open>getCanvasHandle\<close> over \<open>document.querySelectorAll('canvas')\<close>, which lists
  the elements in document order. An element is named by its position in that list;
  \<open>best\<close> starts as \<open>null\<close> and \<open>bestArea\<close> as 0.
\<close>

fun best_canvas :: "'a canvas_scheme list \<Rightarrow> nat \<Rightarrow> nat option \<Rightarrow> nat \<Rightarrow> nat option" where
  "best_canvas [] i best bestArea = best"
| "best_canvas (c # cs) i best bestArea =
     (if canvas_area c > bestArea then best_canvas cs (Suc i) (Some i) (canvas_area c)
      else best_canvas cs (Suc i) best bestArea)"

definition getCanvasHandle :: "'a canvas_scheme list \<Rightarrow> nat option" where
  "getCanvasHandle document = best_canvas document 0 None 0"

subsection \<open>The automation layer\<close>

text \<open>
  An awaited call into the automation layer resolves with a value or rejects. The
  input calls of the choreography are events; \<open>FrameAdvance\<close> is one \<open>page.evaluate\<close>
  round trip and carries the argument of \<open>advanceTime\<close> when the page has a callable
  one, and \<open>Sleep\<close> is the harness's own timer. A key argument is a string, or, when
  the button names a member that the \<open>KEY_MAP\<close> object inherits, that member, which is
  no string. The page says which calls it accepts, whether \<open>advanceTime\<close> is callable,
  and whether a page screenshot with a given clip resolves. Arithmetic on coordinates
  is exact here; no property below depends on a coordinate.
\<close>

datatype 'a awaited = Rejects | Resolves 'a

datatype js_error = TypeError | Rejection

record bbox =
  box_x :: rat
  box_y :: rat
  box_width :: rat
  box_height :: rat

datatype key = KeyName string | Inherited string

datatype event =
    MouseMove rat rat
  | MouseDown string
  | KeyDown key
  | FrameAdvance "rat option"
  | MouseUp string
  | KeyUp key
  | Sleep nat

record page =
  advanceTime_callable :: bool
  accepts :: "event \<Rightarrow> bool"
  page_screenshot :: "bbox option \<Rightarrow> bool"

text \<open>The keyboard calls take a string; any other argument is refused.\<close>

definition call_resolves :: "page \<Rightarrow> event \<Rightarrow> bool" where
  "call_resolves pg ev =
     (case ev of
        KeyDown (Inherited m) \<Rightarrow> False
      | KeyUp (Inherited m) \<Rightarrow> False
      | _ \<Rightarrow> accepts pg ev)"

text \<open>
  One awaited input call on a trace: the event is added when the call resolves;
  otherwise the exception leaves with the trace as it was (\<open>Inl\<close>).
\<close>

definition perform :: "page \<Rightarrow> event \<Rightarrow> event list \<Rightarrow> event list + event list" where
  "perform pg ev tr = (if call_resolves pg ev then Inr (tr @ [ev]) else Inl tr)"

subsection \<open>Screenshot capture\<close>

text \<open>
  What one capture observes of the located canvas: the result of \<open>toDataURL\<close>, whether the
  2d context of the probe canvas exists, the pixel bytes that \<open>drawImage\<close> and
  \<open>getImageData\<close> give for a probe of a given size (\<open>None\<close> when either throws), whether
  an \<open>evaluate\<close> round trip on the handle resolves, whether the element screenshot
  resolves, and the outcome of the bounding-box query.
\<close>

datatype toDataURL_result = NotCallable | ToDataURLThrows | DataURL string

record canvas_handle = canvas +
  toDataURL :: toDataURL_result
  probe_getContext :: bool
  probe_pixels :: "nat \<Rightarrow> nat list option"
  evaluate_resolves :: bool
  element_screenshot :: bool
  boundingBox :: "bbox option awaited"

datatype buffer = FromBase64 string | ElementScreenshot | PageScreenshot "bbox option"

datatype artifact = Shot nat | State nat | Errors nat | ErrorsBoot

datatype content = Png buffer | Text string | ErrorsJson "err list"

type_synonym 'p fs = "('p \<times> content) list"

fun indexOf :: "string \<Rightarrow> char \<Rightarrow> nat option" where
  "indexOf [] ch = None"
| "indexOf (c # cs) ch = (if c = ch then Some 0 else map_option Suc (indexOf cs ch))"

text \<open>The function that \<open>captureCanvasPngBase64\<close> evaluates in the page.\<close>

definition export_in_page :: "canvas_handle \<Rightarrow> string" where
  "export_in_page c =
     (case toDataURL c of
        NotCallable \<Rightarrow> []
      | ToDataURLThrows \<Rightarrow> []
      | DataURL data \<Rightarrow>
          (case indexOf data (CHR '','') of None \<Rightarrow> [] | Some idx \<Rightarrow> drop (idx + 1) data))"

definition captureCanvasPngBase64 :: "canvas_handle \<Rightarrow> string awaited" where
  "captureCanvasPngBase64 c =
     (if evaluate_resolves c then Resolves (export_in_page c) else Rejects)"

function alpha_loop :: "nat list \<Rightarrow> nat \<Rightarrow> bool" where
  "alpha_loop data i =
     (if i < length data then (if data ! i \<noteq> 0 then False else alpha_loop data (i + 4))
      else True)"
  by pat_completeness auto
termination
  by (relation "measure (\<lambda>(data, i). length data - i)") auto

declare alpha_loop.simps [simp del]

text \<open>The function that \<open>isCanvasTransparent\<close> evaluates in the page.\<close>

definition probe_in_page :: "canvas_handle \<Rightarrow> bool" where
  "probe_in_page c =
     (let w = unat (js_or (width c) (js_or (clientWidth c) 0));
          h = unat (js_or (height c) (js_or (clientHeight c) 0))
      in if w = 0 \<or> h = 0 then True
         else (let size = max 1 (min 16 (min w h))
               in if \<not> probe_getContext c then True
                  else (case probe_pixels c size of
                          None \<Rightarrow> False
                        | Some data \<Rightarrow> alpha_loop data 3)))"

definition isCanvasTransparent :: "canvas_handle option \<Rightarrow> bool awaited" where
  "isCanvasTransparent canvas =
     (case canvas of
        None \<Rightarrow> Resolves True
      | Some c \<Rightarrow> (if evaluate_resolves c then Resolves (probe_in_page c) else Rejects))"

definition writeFileSync :: "'p \<Rightarrow> buffer option \<Rightarrow> 'p fs \<Rightarrow> js_error + 'p fs" where
  "writeFileSync outPath buf files =
     (case buf of None \<Rightarrow> Inl TypeError | Some b \<Rightarrow> Inr (files @ [(outPath, Png b)]))"

text \<open>
  \<open>captureScreenshot\<close> assigns \<open>buffer\<close> in three blocks, one per strategy; each block is
  a function from the buffer so far to the buffer after it, or rejects where an
  awaited call outside a \<open>try\<close> rejects. The element screenshot is inside a \<open>try\<close>; the
  two \<open>evaluate\<close> round trips, the bounding-box query and the page screenshot are
  not. \<open>fs.writeFileSync\<close> raises a TypeError on \<open>null\<close> data; the write itself, into the
  directory that \<open>main\<close> created, succeeds.
\<close>

definition strategy1 :: "canvas_handle option \<Rightarrow> buffer option awaited" where
  "strategy1 canvas =
     (case canvas of
        None \<Rightarrow> Resolves None
      | Some c \<Rightarrow>
          (case captureCanvasPngBase64 c of
             Rejects \<Rightarrow> Rejects
           | Resolves base64 \<Rightarrow>
               (if base64 \<noteq> [] then
                  (case isCanvasTransparent canvas of
                     Rejects \<Rightarrow> Rejects
                   | Resolves transparent \<Rightarrow>
                       Resolves (if transparent then None else Some (FromBase64 base64)))
                else Resolves None)))"

definition strategy2 :: "canvas_handle option \<Rightarrow> buffer option \<Rightarrow> buffer option" where
  "strategy2 canvas buf =
     (case (buf, canvas) of
        (None, Some c) \<Rightarrow> (if element_screenshot c then Some ElementScreenshot else None)
      | _ \<Rightarrow> buf)"

definition canvas_boundingBox :: "canvas_handle option \<Rightarrow> bbox option awaited" where
  "canvas_boundingBox canvas = (case canvas of None \<Rightarrow> Resolves None | Some c \<Rightarrow> boundingBox c)"

definition strategy3 :: "page \<Rightarrow> canvas_handle option \<Rightarrow> buffer option \<Rightarrow> buffer option awaited" where
  "strategy3 pg canvas buf =
     (case buf of
        Some b \<Rightarrow> Resolves buf
      | None \<Rightarrow>
          (case canvas_boundingBox canvas of
             Rejects \<Rightarrow> Rejects
           | Resolves bb \<Rightarrow>
               (if page_screenshot pg bb then Resolves (Some (PageScreenshot bb))
                else Rejects)))"

definition captureScreenshot ::
  "page \<Rightarrow> canvas_handle option \<Rightarrow> 'p \<Rightarrow> 'p fs \<Rightarrow> js_error + 'p fs" where
  "captureScreenshot pg canvas outPath files =
     (case strategy1 canvas of
        Rejects \<Rightarrow> Inl Rejection
      | Resolves buf1 \<Rightarrow>
          (case strategy3 pg canvas (strategy2 canvas buf1) of
             Rejects \<Rightarrow> Inl Rejection
           | Resolves buf3 \<Rightarrow> writeFileSync outPath buf3 files))"

subsection \<open>Action choreography\<close>

text \<open>
  A step of the action list. \<open>frames\<close> and \<open>wait_ms\<close> are non-negative integers when
  present, the mouse coordinates are numbers when present. \<open>KEY_MAP\<close> is a plain object:
  besides its own fourteen keys it answers for the members it inherits from
  \<open>Object.prototype\<close>, all of them objects, so \<open>KEY_MAP[button] || button\<close> is such a
  member when the button is named like one. Each loop of \<open>runActions\<close> awaits its calls
  one after the other; a call that rejects ends \<open>runActions\<close> there (\<open>Inl\<close>, with the
  events until then).
\<close>

record step =
  buttons :: "string list option"
  frames :: "nat option"
  mouse_x :: "rat option"
  mouse_y :: "rat option"
  wait_ms :: "nat option"

definition KEY_MAP :: "(string \<times> string) list" where
  "KEY_MAP =
     [(''up'', ''ArrowUp''), (''down'', ''ArrowDown''), (''left'', ''ArrowLeft''),
      (''right'', ''ArrowRight''), (''enter'', ''Enter''), (''space'', ''Space''),
      (''escape'', ''Escape''), (''tab'', ''Tab''), (''w'', ''KeyW''), (''a'', ''KeyA''),
      (''s'', ''KeyS''), (''d'', ''KeyD''), (''f'', ''KeyF''), (''m'', ''KeyM'')]"

definition Object_prototype :: "string list" where
  "Object_prototype =
     [''constructor'', ''__defineGetter__'', ''__defineSetter__'', ''hasOwnProperty'',
      ''__lookupGetter__'', ''__lookupSetter__'', ''isPrototypeOf'',
      ''propertyIsEnumerable'', ''toString'', ''valueOf'', ''__proto__'',
      ''toLocaleString'']"

definition translate_key :: "string \<Rightarrow> key" where
  "translate_key button =
     (case map_of KEY_MAP button of
        Some k \<Rightarrow> KeyName k
      | None \<Rightarrow> (if button \<in> set Object_prototype then Inherited button else KeyName button))"

definition is_mouse_button :: "string \<Rightarrow> bool" where
  "is_mouse_button button = (button = ''left_mouse_button'' \<or> button = ''right_mouse_button'')"

definition mouse_button :: "string \<Rightarrow> string" where
  "mouse_button button = (if button = ''left_mouse_button'' then ''left'' else ''right'')"

fun press_buttons ::
  "page \<Rightarrow> canvas_handle option \<Rightarrow> step \<Rightarrow> string list \<Rightarrow> event list
     \<Rightarrow> event list + event list" where
  "press_buttons pg canvas st [] tr = Inr tr"
| "press_buttons pg canvas st (button # rest) tr =
     (if is_mouse_button button then
        (case canvas_boundingBox canvas of
           Rejects \<Rightarrow> Inl tr
         | Resolves None \<Rightarrow> press_buttons pg canvas st rest tr
         | Resolves (Some bb) \<Rightarrow>
             (case perform pg
                     (MouseMove
                        (box_x bb + (case mouse_x st of Some x \<Rightarrow> x | None \<Rightarrow> box_width bb / 2))
                        (box_y bb + (case mouse_y st of Some y \<Rightarrow> y | None \<Rightarrow> box_height bb / 2)))
                     tr of
                Inl tr' \<Rightarrow> Inl tr'
              | Inr tr1 \<Rightarrow>
                  (case perform pg (MouseDown (mouse_button button)) tr1 of
                     Inl tr' \<Rightarrow> Inl tr'
                   | Inr tr2 \<Rightarrow> press_buttons pg canvas st rest tr2)))
      else
        (case perform pg (KeyDown (translate_key button)) tr of
           Inl tr' \<Rightarrow> Inl tr'
         | Inr tr1 \<Rightarrow> press_buttons pg canvas st rest tr1))"

function advance_frames :: "page \<Rightarrow> nat \<Rightarrow> nat \<Rightarrow> event list \<Rightarrow> event list + event list" where
  "advance_frames pg n f tr =
     (if f < n then
        (case perform pg
                (FrameAdvance (if advanceTime_callable pg then Some (1000 / 60) else None)) tr of
           Inl tr' \<Rightarrow> Inl tr'
         | Inr tr1 \<Rightarrow> advance_frames pg n (Suc f) tr1)
      else Inr tr)"
  by pat_completeness auto
termination
  by (relation "measure (\<lambda>(pg, n, f, tr). n - f)") auto

declare advance_frames.simps [simp del]

fun release_buttons :: "page \<Rightarrow> string list \<Rightarrow> event list \<Rightarrow> event list + event list" where
  "release_buttons pg [] tr = Inr tr"
| "release_buttons pg (button # rest) tr =
     (if is_mouse_button button then
        (case perform pg (MouseUp (mouse_button button)) tr of
           Inl tr' \<Rightarrow> Inl tr'
         | Inr tr1 \<Rightarrow> release_buttons pg rest tr1)
      else
        (case perform pg (KeyUp (translate_key button)) tr of
           Inl tr' \<Rightarrow> Inl tr'
         | Inr tr1 \<Rightarrow> release_buttons pg rest tr1))"

definition step_buttons :: "step \<Rightarrow> string list" where
  "step_buttons st = new_Set (case buttons st of Some bs \<Rightarrow> bs | None \<Rightarrow> [])"

definition step_frames :: "step \<Rightarrow> nat" where
  "step_frames st = (case frames st of Some n \<Rightarrow> js_or n 1 | None \<Rightarrow> 1)"

definition step_wait :: "step \<Rightarrow> event list \<Rightarrow> event list" where
  "step_wait st tr =
     (case wait_ms st of Some ms \<Rightarrow> (if ms \<noteq> 0 then tr @ [Sleep ms] else tr) | None \<Rightarrow> tr)"

definition run_step ::
  "page \<Rightarrow> canvas_handle option \<Rightarrow> step \<Rightarrow> event list \<Rightarrow> event list + event list" where
  "run_step pg canvas st tr =
     (case press_buttons pg canvas st (step_buttons st) tr of
        Inl tr' \<Rightarrow> Inl tr'
      | Inr tr1 \<Rightarrow>
          (case advance_frames pg (step_frames st) 0 tr1 of
             Inl tr' \<Rightarrow> Inl tr'
           | Inr tr2 \<Rightarrow>
               (case release_buttons pg (step_buttons st) tr2 of
                  Inl tr' \<Rightarrow> Inl tr'
                | Inr tr3 \<Rightarrow> Inr (step_wait st tr3))))"

fun runActions ::
  "page \<Rightarrow> canvas_handle option \<Rightarrow> step list \<Rightarrow> event list \<Rightarrow> event list + event list" where
  "runActions pg canvas [] tr = Inr tr"
| "runActions pg canvas (st # rest) tr =
     (case run_step pg canvas st tr of
        Inl tr' \<Rightarrow> Inl tr'
      | Inr tr1 \<Rightarrow> runActions pg canvas rest tr1)"

subsection \<open>Virtual time shim\<close>

text \<open>
  The window after the shim ran: the \<open>pending\<close> set, and the timers that the original
  \<open>setTimeout\<close>, \<open>setInterval\<close> and \<open>requestAnimationFrame\<close> hold for the wrappers. Each
  wrapper call creates a new \<open>task\<close> object, named by a counter, and registers a
  closure over it under a new handle. The page's calls and the event loop's firing of
  a registered closure are the operations; \<open>clearTimeout\<close>, \<open>clearInterval\<close> and
  \<open>cancelAnimationFrame\<close> are the browser's own, since the shim leaves them alone.
  The browser clears timeouts and intervals from one pool of handles, so one operation
  stands for \<open>clearTimeout\<close> and \<open>clearInterval\<close>. The frame requests that the shim's
  \<open>advanceTime\<close> makes go to the original function and create no task.
\<close>

datatype timer_kind = Timeout | Interval | AnimationFrame

record native_timer =
  timer_id :: nat
  timer_kind :: timer_kind
  timer_task :: nat

record window =
  pending :: "nat list"
  next_task :: nat
  timers :: "native_timer list"
  next_id :: nat

definition makeVirtualTimeShim :: window where
  "makeVirtualTimeShim = \<lparr>pending = [], next_task = 0, timers = [], next_id = 0\<rparr>"

definition schedule :: "timer_kind \<Rightarrow> window \<Rightarrow> window" where
  "schedule k w =
     w\<lparr>pending := set_add (next_task w) (pending w),
       next_task := Suc (next_task w),
       timers := timers w @ [\<lparr>timer_id = next_id w, timer_kind = k, timer_task = next_task w\<rparr>],
       next_id := Suc (next_id w)\<rparr>"

definition setTimeout :: "window \<Rightarrow> window" where
  "setTimeout w = schedule Timeout w"

definition setInterval :: "window \<Rightarrow> window" where
  "setInterval w = schedule Interval w"

definition requestAnimationFrame :: "window \<Rightarrow> window" where
  "requestAnimationFrame w = schedule AnimationFrame w"

text \<open>
  The event loop runs the closure registered under a handle. A timeout or a frame
  request is used up by that, and its closure deletes its task; an interval stays
  registered and its closure only calls the page's function.
\<close>

definition fire_timer :: "native_timer \<Rightarrow> window \<Rightarrow> window" where
  "fire_timer t w =
     (case timer_kind t of
        Interval \<Rightarrow> w
      | _ \<Rightarrow> w\<lparr>pending := set_delete (timer_task t) (pending w),
               timers := filter (\<lambda>u. timer_id u \<noteq> timer_id t) (timers w)\<rparr>)"

definition fire :: "nat \<Rightarrow> window \<Rightarrow> window" where
  "fire h w =
     (case find (\<lambda>t. timer_id t = h) (timers w) of None \<Rightarrow> w | Some t \<Rightarrow> fire_timer t w)"

definition clearTimeout :: "nat \<Rightarrow> window \<Rightarrow> window" where
  "clearTimeout h w =
     w\<lparr>timers := filter (\<lambda>u. \<not> (timer_id u = h \<and> timer_kind u \<noteq> AnimationFrame)) (timers w)\<rparr>"

definition cancelAnimationFrame :: "nat \<Rightarrow> window \<Rightarrow> window" where
  "cancelAnimationFrame h w =
     w\<lparr>timers := filter (\<lambda>u. \<not> (timer_id u = h \<and> timer_kind u = AnimationFrame)) (timers w)\<rparr>"

definition drainVirtualTimePending :: "window \<Rightarrow> nat" where
  "drainVirtualTimePending w = set_size (pending w)"

datatype window_op =
    SetTimeout
  | SetInterval
  | RequestAnimationFrame
  | Fire nat
  | ClearTimeout nat
  | CancelAnimationFrame nat

fun window_step :: "window_op \<Rightarrow> window \<Rightarrow> window" where
  "window_step SetTimeout w = setTimeout w"
| "window_step SetInterval w = setInterval w"
| "window_step RequestAnimationFrame w = requestAnimationFrame w"
| "window_step (Fire h) w = fire h w"
| "window_step (ClearTimeout h) w = clearTimeout h w"
| "window_step (CancelAnimationFrame h) w = cancelAnimationFrame h w"

fun window_run :: "window_op list \<Rightarrow> window \<Rightarrow> window" where
  "window_run [] w = w"
| "window_run (op # ops) w = window_run ops (window_step op w)"

text \<open>The tasks whose timer is gone: pending, and held by no registered timer.\<close>

definition leaked :: "window \<Rightarrow> nat list" where
  "leaked w = filter (\<lambda>k. k \<notin> timer_task ` set (timers w)) (pending w)"

subsection \<open>Iteration controller\<close>

text \<open>
  What one run of \<open>main\<close> meets: the configured steps and pause; the page; whether the
  awaited calls from the launch to the first canvas lookup resolve; the records the
  listeners receive before the boot drain and during each iteration before that
  iteration's drain, in order of arrival; the canvas each iteration works on, or the
  rejection of its lookup; what reading the text state yields in each iteration, a
  string or \<open>null\<close>, or a rejection when the page's function throws or returns what
  cannot be written; and whether closing the browser resolves. The artifacts are
  named by a datatype for \<open>shot-<i>.png\<close>, \<open>state-<i>.json\<close>, \<open>errors-<i>.json\<close> and
  \<open>errors-boot.json\<close> in the screenshot directory, and the file system is the list of
  writes in order. The iteration count is the loop bound, a natural number. The run
  also yields the input events of its choreography and the pauses between
  iterations. An exception that leaves \<open>main\<close> reaches its \<open>catch\<close>, which exits with
  status 1.
\<close>

record run_env =
  steps :: "step list"
  pauseMs :: nat
  env_page :: page
  boot_resolves :: bool
  boot_events :: "err list"
  iter_events :: "nat \<Rightarrow> err list"
  iter_canvas :: "nat \<Rightarrow> canvas_handle option awaited"
  iter_textState :: "nat \<Rightarrow> string option awaited"
  close_resolves :: bool

datatype outcome = Passed | Failed | Rejected js_error

definition write_state :: "nat \<Rightarrow> string option \<Rightarrow> artifact fs \<Rightarrow> artifact fs" where
  "write_state i textState files =
     (case textState of
        None \<Rightarrow> files
      | Some s \<Rightarrow> (if s \<noteq> [] then files @ [(State i, Text s)] else files))"

function iteration_loop ::
  "run_env \<Rightarrow> nat \<Rightarrow> nat \<Rightarrow> tracker \<Rightarrow> artifact fs \<Rightarrow> event list
     \<Rightarrow> artifact fs \<times> outcome \<times> event list" where
  "iteration_loop env n i t files tr =
     (if i < n then
        (case iter_canvas env i of
           Rejects \<Rightarrow> (files, Rejected Rejection, tr)
         | Resolves canvas \<Rightarrow>
             (case runActions (env_page env) canvas (steps env) tr of
                Inl tr' \<Rightarrow> (files, Rejected Rejection, tr')
              | Inr tr1 \<Rightarrow>
                  (case captureScreenshot (env_page env) canvas (Shot i) files of
                     Inl e \<Rightarrow> (files, Rejected e, tr1 @ [Sleep (pauseMs env)])
                   | Inr files1 \<Rightarrow>
                       (case iter_textState env i of
                          Rejects \<Rightarrow> (files1, Rejected Rejection, tr1 @ [Sleep (pauseMs env)])
                        | Resolves textState \<Rightarrow>
                            (let files2 = write_state i textState files1;
                                 t1 = ingest_all (iter_events env i) t;
                                 freshErrors = fst (drain t1)
                             in if freshErrors \<noteq> [] then
                                  (files2 @ [(Errors i, ErrorsJson freshErrors)], Failed,
                                   tr1 @ [Sleep (pauseMs env)])
                                else iteration_loop env n (Suc i) (snd (drain t1)) files2
                                       (tr1 @ [Sleep (pauseMs env)]))))))
      else (files, Passed, tr))"
  by pat_completeness auto
termination
  by (relation "measure (\<lambda>(env, n, i, t, files, tr). n - i)") auto

declare iteration_loop.simps [simp del]

record run_result =
  files :: "artifact fs"
  exit_code :: nat
  events :: "event list"

definition boot_check :: "run_env \<Rightarrow> artifact fs \<times> tracker" where
  "boot_check env =
     (let t = ingest_all (boot_events env) new_tracker;
          bootErrors = fst (drain t)
      in (if bootErrors \<noteq> [] then [(ErrorsBoot, ErrorsJson bootErrors)] else [],
          snd (drain t)))"

definition main :: "run_env \<Rightarrow> nat \<Rightarrow> run_result" where
  "main env iterations =
     (if \<not> boot_resolves env then \<lparr>files = [], exit_code = 1, events = []\<rparr>
      else
        (case iteration_loop env iterations 0 (snd (boot_check env)) (fst (boot_check env)) [] of
           (fs', Passed, tr) \<Rightarrow>
             \<lparr>files = fs', exit_code = (if close_resolves env then 0 else 1), events = tr\<rparr>
         | (fs', Failed, tr) \<Rightarrow> \<lparr>files = fs', exit_code = 1, events = tr\<rparr>
         | (fs', Rejected e, tr) \<Rightarrow> \<lparr>files = fs', exit_code = 1, events = tr\<rparr>))"

text \<open>
  The tracker as iteration \<open>i\<close> finds it when every earlier drain was empty, and the
  batch its drain then returns.
\<close>

fun tracker_at :: "run_env \<Rightarrow> nat \<Rightarrow> tracker" where
  "tracker_at env 0 = snd (boot_check env)"
| "tracker_at env (Suc i) = snd (drain (ingest_all (iter_events env i) (tracker_at env i)))"

definition fresh_at :: "run_env \<Rightarrow> nat \<Rightarrow> err list" where
  "fresh_at env i = fst (drain (ingest_all (iter_events env i) (tracker_at env i)))"

subsection \<open>Auxiliary definitions and concrete inputs\<close>

text \<open>
  What holds of every tracker the operations reach: the buffered records have distinct
  keys, all of them seen.
\<close>

definition tracker_inv :: "tracker \<Rightarrow> bool" where
  "tracker_inv t =
     (distinct (map JSON_stringify (errors t))
      \<and> JSON_stringify ` set (errors t) \<subseteq> set (seen t))"

definition err_a :: err where
  "err_a = \<lparr>err_type = ''pageerror'', err_text = ''Error: boom''\<rparr>"

definition err_b :: err where
  "err_b = \<lparr>err_type = ''console.error'', err_text = ''x is undefined''\<rparr>"

text \<open>
  What holds of every window the operations reach: tasks and handles are issued once,
  every registered closure holds a pending task of its own, and the counters are past
  everything issued.
\<close>

definition window_inv :: "window \<Rightarrow> bool" where
  "window_inv w =
     (distinct (pending w)
      \<and> distinct (map timer_id (timers w))
      \<and> distinct (map timer_task (timers w))
      \<and> (\<forall>t \<in> set (timers w).
            timer_task t \<in> set (pending w) \<and> timer_id t < next_id w)
      \<and> (\<forall>k \<in> set (pending w). k < next_task w))"

definition cancel_op :: "native_timer \<Rightarrow> window_op" where
  "cancel_op t =
     (if timer_kind t = AnimationFrame then CancelAnimationFrame (timer_id t)
      else ClearTimeout (timer_id t))"

definition window_three :: window where
  "window_three = window_run [SetTimeout, SetInterval, RequestAnimationFrame] makeVirtualTimeShim"

definition timer_zero :: native_timer where
  "timer_zero = \<lparr>timer_id = 0, timer_kind = Timeout, timer_task = 0\<rparr>"

definition exact_area :: "'a canvas_scheme \<Rightarrow> nat" where
  "exact_area c =
     unat (if width c \<noteq> 0 then width c else clientWidth c)
     * unat (if height c \<noteq> 0 then height c else clientHeight c)"

definition document_a :: "canvas list" where
  "document_a =
     [\<lparr>width = 0, height = 0, clientWidth = 0, clientHeight = 0\<rparr>,
      \<lparr>width = 10, height = 10, clientWidth = 300, clientHeight = 150\<rparr>,
      \<lparr>width = 0, height = 5, clientWidth = 10, clientHeight = 0\<rparr>,
      \<lparr>width = 20, height = 5, clientWidth = 0, clientHeight = 0\<rparr>]"

definition document_big :: "canvas list" where
  "document_big =
     [\<lparr>width = 94906266, height = 94906268, clientWidth = 0, clientHeight = 0\<rparr>,
      \<lparr>width = 94906267, height = 94906267, clientWidth = 0, clientHeight = 0\<rparr>]"



text \<open>
  A page that accepts every call and takes every screenshot, and one that refuses a
  page screenshot whose clip is empty.
\<close>

definition page_willing :: page where
  "page_willing =
     \<lparr>advanceTime_callable = True, accepts = (\<lambda>ev. True), page_screenshot = (\<lambda>bb. True)\<rparr>"















definition frame_advance :: "page \<Rightarrow> event" where
  "frame_advance pg = FrameAdvance (if advanceTime_callable pg then Some (1000 / 60) else None)"

definition emitted :: "event list + event list \<Rightarrow> event list" where
  "emitted r = (case r of Inl tr \<Rightarrow> tr | Inr tr \<Rightarrow> tr)"

definition prepend :: "event list \<Rightarrow> event list + event list \<Rightarrow> event list + event list" where
  "prepend tr r = (case r of Inl tr' \<Rightarrow> Inl (tr @ tr') | Inr tr' \<Rightarrow> Inr (tr @ tr'))"





definition step_space :: step where
  "step_space =
     \<lparr>buttons = Some [''space''], frames = None,
      mouse_x = None, mouse_y = None, wait_ms = None\<rparr>"




text \<open>
  Every awaited call of iteration \<open>i\<close> resolves: the canvas lookup, the choreography,
  the capture and the reading of the text state.
\<close>

definition iteration_resolves :: "run_env \<Rightarrow> nat \<Rightarrow> bool" where
  "iteration_resolves env i =
     (case iter_canvas env i of
        Rejects \<Rightarrow> False
      | Resolves canvas \<Rightarrow>
          \<not> isl (runActions (env_page env) canvas (steps env) [])
          \<and> \<not> isl (captureScreenshot (env_page env) canvas (Shot i) ([] :: artifact fs))
          \<and> iter_textState env i \<noteq> Rejects)"

text \<open>
  The writes of iteration \<open>i\<close> before its drain: the screenshot and, when the text state
  is a non-empty string, the state file; and its events: the choreography and the
  pause.
\<close>

definition iteration_writes :: "run_env \<Rightarrow> nat \<Rightarrow> artifact fs" where
  "iteration_writes env i =
     (case iter_canvas env i of
        Rejects \<Rightarrow> []
      | Resolves canvas \<Rightarrow>
          (case captureScreenshot (env_page env) canvas (Shot i) [] of
             Inl e \<Rightarrow> []
           | Inr files1 \<Rightarrow>
               (case iter_textState env i of
                  Rejects \<Rightarrow> files1
                | Resolves textState \<Rightarrow> write_state i textState files1)))"

definition iteration_actions :: "run_env \<Rightarrow> nat \<Rightarrow> event list \<Rightarrow> event list" where
  "iteration_actions env i tr =
     (case iter_canvas env i of
        Rejects \<Rightarrow> tr
      | Resolves canvas \<Rightarrow>
          tr @ emitted (runActions (env_page env) canvas (steps env) [])
             @ [Sleep (pauseMs env)])"

text \<open>The events of the iterations in a list, one iteration after the other.\<close>

definition iterations_actions :: "run_env \<Rightarrow> nat list \<Rightarrow> event list \<Rightarrow> event list" where
  "iterations_actions env js tr = foldl (\<lambda>tr' j. iteration_actions env j tr') tr js"


definition run_second_fails :: run_env where
  "run_second_fails =
     \<lparr>steps = [step_space], pauseMs = 250, env_page = page_willing, boot_resolves = True,
      boot_events = [err_a],
      iter_events = (\<lambda>i. if i = 1 then [err_a, err_b, err_b] else [err_a]),
      iter_canvas = (\<lambda>i. Resolves None),
      iter_textState = (\<lambda>i. if i = 0 then Resolves (Some ''{}'') else Resolves None),
      close_resolves = True\<rparr>"


section \<open>Properties of the tracker\<close>

lemma ingest_twice: "ingest e (ingest e t) = ingest e t"
  by (simp add: ingest_def set_has_def set_add_def Let_def)

lemma ingest_funpow: "(ingest e ^^ Suc n) t = ingest e t"
proof (induction n)
  case 0
  show ?case by simp
next
  case (Suc n)
  have "(ingest e ^^ Suc (Suc n)) t = ingest e ((ingest e ^^ Suc n) t)" by simp
  also have "\<dots> = ingest e (ingest e t)" using Suc by simp
  finally show ?case by (simp only: ingest_twice)
qed

lemma seen_ingest_mono: "length (seen t) \<le> length (seen (ingest e t))"
  by (simp add: ingest_def set_has_def set_add_def Let_def)

lemma seen_ingest_subset: "set (seen t) \<subseteq> set (seen (ingest e t))"
  by (auto simp: ingest_def set_has_def set_add_def Let_def)

lemma seen_drain: "seen (snd (drain t)) = seen t"
  by (simp add: drain_def)

lemma seen_run_ops_mono: "length (seen t) \<le> length (seen (fst (run_ops ops t)))"
proof (induction ops t rule: run_ops.induct)
  case (1 t)
  show ?case by simp
next
  case (2 e ops t)
  have "length (seen t) \<le> length (seen (ingest e t))" by (rule seen_ingest_mono)
  with 2 show ?case by simp
next
  case (3 ops t)
  then show ?case by (simp add: Let_def seen_drain)
qed

text \<open>
  Keys that are remembered while no buffered record carries them stay out of every
  later batch.
\<close>

lemma ingest_keeps_out:
  assumes "k \<in> set (seen t)" and "k \<notin> JSON_stringify ` set (errors t)"
  shows "k \<in> set (seen (ingest e t)) \<and> k \<notin> JSON_stringify ` set (errors (ingest e t))"
  using assms by (auto simp: ingest_def set_has_def set_add_def Let_def)

lemma run_ops_keeps_out:
  assumes "k \<in> set (seen t)" and "k \<notin> JSON_stringify ` set (errors t)"
  shows "\<forall>b \<in> set (snd (run_ops ops t)). k \<notin> JSON_stringify ` set b"
  using assms
proof (induction ops t rule: run_ops.induct)
  case (1 t)
  show ?case by simp
next
  case (2 e ops t)
  from ingest_keeps_out [OF "2.prems"]
  have "k \<in> set (seen (ingest e t))" "k \<notin> JSON_stringify ` set (errors (ingest e t))"
    by simp_all
  then show ?case using "2.IH" by simp
next
  case (3 ops t)
  have a: "k \<in> set (seen (snd (drain t)))" using "3.prems" by (simp add: drain_def)
  have b: "k \<notin> JSON_stringify ` set (errors (snd (drain t)))" by (simp add: drain_def)
  have c: "k \<notin> JSON_stringify ` set (fst (drain t))" using "3.prems" by (simp add: drain_def)
  from "3.IH" [OF a b] c show ?case by (simp add: Let_def)
qed

lemma tracker_inv_new: "tracker_inv new_tracker"
  by (simp add: tracker_inv_def new_tracker_def)

lemma tracker_inv_ingest: "tracker_inv t \<Longrightarrow> tracker_inv (ingest e t)"
  by (auto simp: tracker_inv_def ingest_def set_has_def set_add_def Let_def)

lemma tracker_inv_drain: "tracker_inv t \<Longrightarrow> tracker_inv (snd (drain t))"
  by (simp add: tracker_inv_def drain_def)

lemma tracker_inv_run_ops: "tracker_inv t \<Longrightarrow> tracker_inv (fst (run_ops ops t))"
proof (induction ops t rule: run_ops.induct)
  case (1 t)
  then show ?case by simp
next
  case (2 e ops t)
  then show ?case by (simp add: tracker_inv_ingest)
next
  case (3 ops t)
  then show ?case by (simp add: Let_def tracker_inv_drain)
qed

lemma count_list_distinct:
  "distinct xs \<Longrightarrow> count_list xs x = (if x \<in> set xs then 1 else 0)"
  by (induction xs) auto

lemma count_after_ingest:
  assumes "tracker_inv t"
  shows "count_list (errors (ingest e t)) e
         = (if JSON_stringify e \<in> set (seen t) \<and> e \<notin> set (errors t) then 0 else 1)"
proof -
  have d: "distinct (errors t)" using assms by (auto simp: tracker_inv_def distinct_map)
  show ?thesis
  proof (cases "JSON_stringify e \<in> set (seen t)")
    case True
    then have "ingest e t = t" by (simp add: ingest_def set_has_def)
    then show ?thesis using True d by (simp add: count_list_distinct)
  next
    case False
    then have n: "e \<notin> set (errors t)" using assms by (auto simp: tracker_inv_def)
    have "errors (ingest e t) = errors t @ [e]"
      using False by (simp add: ingest_def set_has_def Let_def)
    then show ?thesis using False n by (simp add: count_list_0_iff)
  qed
qed

text \<open>
  Claim C3. Ingestion is idempotent: ingesting a record twice in sequence leaves any
  tracker in the state that ingesting it once leaves, so the batch drained next is the
  same; any number of repeated ingestions, at least one, equals a single ingestion; and
  a new tracker that received one record any number of times drains exactly one copy
  of it. In a tracker with any history, the batch drained after such ingestions holds
  the record at most once, and exactly once when its key was not seen before.
\<close>

theorem ingest_idempotent:
  "ingest e (ingest e t) = ingest e t
   \<and> drain (ingest e (ingest e t)) = drain (ingest e t)
   \<and> (ingest e ^^ Suc n) t = ingest e t
   \<and> fst (drain ((ingest e ^^ Suc n) new_tracker)) = [e]
   \<and> count_list (fst (drain ((ingest e ^^ Suc n) (fst (run_ops ops new_tracker))))) e \<le> 1
   \<and> (JSON_stringify e \<notin> set (seen (fst (run_ops ops new_tracker))) \<longrightarrow>
        count_list (fst (drain ((ingest e ^^ Suc n) (fst (run_ops ops new_tracker))))) e = 1)"
proof -
  have one: "fst (drain (ingest e new_tracker)) = [e]"
    by (simp add: drain_def ingest_def new_tracker_def set_has_def set_add_def Let_def)
  have i: "tracker_inv (fst (run_ops ops new_tracker))"
    by (rule tracker_inv_run_ops [OF tracker_inv_new])
  have c: "count_list (fst (drain ((ingest e ^^ Suc n) (fst (run_ops ops new_tracker))))) e
           = (if JSON_stringify e \<in> set (seen (fst (run_ops ops new_tracker)))
                 \<and> e \<notin> set (errors (fst (run_ops ops new_tracker))) then 0 else 1)"
    using count_after_ingest [OF i, of e] by (simp only: ingest_funpow) (simp add: drain_def)
  have "count_list (fst (drain ((ingest e ^^ Suc n) (fst (run_ops ops new_tracker))))) e \<le> 1"
    unfolding c by simp
  moreover have "JSON_stringify e \<notin> set (seen (fst (run_ops ops new_tracker))) \<longrightarrow>
        count_list (fst (drain ((ingest e ^^ Suc n) (fst (run_ops ops new_tracker))))) e = 1"
    unfolding c by simp
  ultimately show ?thesis
    by (simp only: ingest_twice ingest_funpow one simp_thms)
qed

theorem ingest_idempotent_witness:
  "JSON_stringify err_b \<notin> set (seen (fst (run_ops [Ingest err_a, Drain] new_tracker)))
   \<and> fst (drain ((ingest err_b ^^ Suc 0) (fst (run_ops [Ingest err_a, Drain] new_tracker))))
       = [err_b]"
  using ingest_idempotent [of err_b "fst (run_ops [Ingest err_a, Drain] new_tracker)" 0
      "[Ingest err_a, Drain]"]
  by (simp add: ingest_def drain_def new_tracker_def set_has_def set_add_def Let_def
      JSON_stringify_def quote_string_def quote_char_def err_a_def err_b_def)

text \<open>
  Claim C4. \<open>drain\<close> returns the current batch and empties it, leaving the seen keys as
  they were; a second drain right after the first returns the empty batch; the number
  of seen keys never decreases along any history of ingests and drains; and once a
  drain has happened, no record whose key was seen before it is in any batch that a
  later drain returns, whatever is ingested in between.
\<close>

theorem drain_exclusive:
  "fst (drain t) = errors t
   \<and> seen (snd (drain t)) = seen t
   \<and> fst (drain (snd (drain t))) = []
   \<and> set_size (seen t) \<le> set_size (seen (fst (run_ops ops t)))
   \<and> (JSON_stringify e \<in> set (seen t) \<longrightarrow>
        (\<forall>b \<in> set (snd (run_ops ops (snd (drain t)))). e \<notin> set b))"
proof -
  have "\<forall>b \<in> set (snd (run_ops ops (snd (drain t)))). e \<notin> set b"
    if k: "JSON_stringify e \<in> set (seen t)"
  proof -
    have a: "JSON_stringify e \<in> set (seen (snd (drain t)))"
      using k by (simp add: drain_def)
    have b: "JSON_stringify e \<notin> JSON_stringify ` set (errors (snd (drain t)))"
      by (simp add: drain_def)
    from run_ops_keeps_out [OF a b] show ?thesis by blast
  qed
  then show ?thesis
    by (simp add: drain_def set_size_def seen_run_ops_mono)
qed

theorem drain_exclusive_witness:
  "JSON_stringify err_a \<in> set (seen (ingest err_a new_tracker))
   \<and> snd (run_ops [Ingest err_a, Ingest err_b, Drain, Drain]
           (snd (drain (ingest err_a new_tracker)))) = [[err_b], []]"
  using drain_exclusive
    [of "ingest err_a new_tracker" "[Ingest err_a, Ingest err_b, Drain, Drain]" err_a]
  by (simp add: ingest_def drain_def new_tracker_def set_has_def set_add_def Let_def
      JSON_stringify_def quote_string_def quote_char_def err_a_def err_b_def)

section \<open>Properties of the canvas locator\<close>

text \<open>
  The loop with any starting \<open>best\<close> and \<open>bestArea\<close>: either no element beats the
  starting area, or the result is the first element of greatest area.
\<close>

lemma best_canvas_spec:
  "(best_canvas cs i best ba = best \<and> (\<forall>c \<in> set cs. canvas_area c \<le> ba))
   \<or> (\<exists>k < length cs. best_canvas cs i best ba = Some (i + k)
         \<and> ba < canvas_area (cs ! k)
         \<and> (\<forall>j < length cs. canvas_area (cs ! j) \<le> canvas_area (cs ! k))
         \<and> (\<forall>j < k. canvas_area (cs ! j) < canvas_area (cs ! k)))"
proof (induction cs arbitrary: i best ba)
  case Nil
  show ?case by simp
next
  case (Cons c cs)
  show ?case
  proof (cases "canvas_area c > ba")
    case True
    from Cons.IH [of "Suc i" "Some i" "canvas_area c"]
    show ?thesis
    proof
      assume h: "best_canvas cs (Suc i) (Some i) (canvas_area c) = Some i
                 \<and> (\<forall>d \<in> set cs. canvas_area d \<le> canvas_area c)"
      have "best_canvas (c # cs) i best ba = Some (i + 0)" using True h by simp
      moreover have "\<forall>j < length (c # cs). canvas_area ((c # cs) ! j) \<le> canvas_area ((c # cs) ! 0)"
        using h by (auto simp: nth_Cons')
      ultimately show ?thesis using True by (intro disjI2 exI [of _ 0]) simp
    next
      assume "\<exists>k < length cs. best_canvas cs (Suc i) (Some i) (canvas_area c) = Some (Suc i + k)
         \<and> canvas_area c < canvas_area (cs ! k)
         \<and> (\<forall>j < length cs. canvas_area (cs ! j) \<le> canvas_area (cs ! k))
         \<and> (\<forall>j < k. canvas_area (cs ! j) < canvas_area (cs ! k))"
      then obtain k where k: "k < length cs"
        "best_canvas cs (Suc i) (Some i) (canvas_area c) = Some (Suc i + k)"
        "canvas_area c < canvas_area (cs ! k)"
        "\<forall>j < length cs. canvas_area (cs ! j) \<le> canvas_area (cs ! k)"
        "\<forall>j < k. canvas_area (cs ! j) < canvas_area (cs ! k)" by blast
      have 1: "best_canvas (c # cs) i best ba = Some (i + Suc k)" using True k(2) by simp
      have 2: "ba < canvas_area ((c # cs) ! Suc k)" using True k(3) by simp
      have 3: "\<forall>j < length (c # cs). canvas_area ((c # cs) ! j) \<le> canvas_area ((c # cs) ! Suc k)"
        using k(3,4) by (auto simp: nth_Cons')
      have 4: "\<forall>j < Suc k. canvas_area ((c # cs) ! j) < canvas_area ((c # cs) ! Suc k)"
        using k(3,5) by (auto simp: nth_Cons')
      from k(1) 1 2 3 4 show ?thesis by (intro disjI2 exI [of _ "Suc k"]) simp
    qed
  next
    case False
    from Cons.IH [of "Suc i" best ba]
    show ?thesis
    proof
      assume "best_canvas cs (Suc i) best ba = best \<and> (\<forall>d \<in> set cs. canvas_area d \<le> ba)"
      then show ?thesis using False by simp
    next
      assume "\<exists>k < length cs. best_canvas cs (Suc i) best ba = Some (Suc i + k)
         \<and> ba < canvas_area (cs ! k)
         \<and> (\<forall>j < length cs. canvas_area (cs ! j) \<le> canvas_area (cs ! k))
         \<and> (\<forall>j < k. canvas_area (cs ! j) < canvas_area (cs ! k))"
      then obtain k where k: "k < length cs"
        "best_canvas cs (Suc i) best ba = Some (Suc i + k)"
        "ba < canvas_area (cs ! k)"
        "\<forall>j < length cs. canvas_area (cs ! j) \<le> canvas_area (cs ! k)"
        "\<forall>j < k. canvas_area (cs ! j) < canvas_area (cs ! k)" by blast
      have 1: "best_canvas (c # cs) i best ba = Some (i + Suc k)" using False k(2) by simp
      have 2: "ba < canvas_area ((c # cs) ! Suc k)" using k(3) by simp
      have 3: "\<forall>j < length (c # cs). canvas_area ((c # cs) ! j) \<le> canvas_area ((c # cs) ! Suc k)"
        using False k(3,4) by (auto simp: nth_Cons')
      have 4: "\<forall>j < Suc k. canvas_area ((c # cs) ! j) < canvas_area ((c # cs) ! Suc k)"
        using False k(3,5) by (auto simp: nth_Cons')
      from k(1) 1 2 3 4 show ?thesis by (intro disjI2 exI [of _ "Suc k"]) simp
    qed
  qed
qed

lemma getCanvasHandle_None:
  "getCanvasHandle doc = None \<longleftrightarrow> (\<forall>c \<in> set doc. canvas_area c = 0)"
proof -
  have "False" if "k < length doc" "0 < canvas_area (doc ! k)"
    "\<forall>c \<in> set doc. canvas_area c = 0" for k
    using that nth_mem [of k doc] by auto
  then show ?thesis
    using best_canvas_spec [of doc 0 None 0]
    by (auto simp: getCanvasHandle_def)
qed

lemma getCanvasHandle_Some:
  assumes "getCanvasHandle doc = Some k"
  shows "k < length doc \<and> 0 < canvas_area (doc ! k)
         \<and> (\<forall>j < length doc. canvas_area (doc ! j) \<le> canvas_area (doc ! k))
         \<and> (\<forall>j < k. canvas_area (doc ! j) < canvas_area (doc ! k))"
  using best_canvas_spec [of doc 0 None 0] assms
  by (auto simp: getCanvasHandle_def)

lemma getCanvasHandle_example:
  assumes "map canvas_area doc = [0, 100, 50, 100]"
  shows "getCanvasHandle doc = Some 1"
proof -
  from assms obtain a b c d where doc: "doc = [a, b, c, d]"
    and ar: "canvas_area a = 0" "canvas_area b = 100" "canvas_area c = 50" "canvas_area d = 100"
    by (auto simp: map_eq_Cons_conv)
  show ?thesis by (simp add: doc ar getCanvasHandle_def)
qed


lemma canvas_area_exact:
  "canvas_area c = to_double (exact_area c)
   \<and> (exact_area c < 2 ^ 53 \<longrightarrow> canvas_area c = exact_area c)"
proof -
  have "js_or (width c) (js_or (clientWidth c) 0) = (if width c \<noteq> 0 then width c else clientWidth c)"
    "js_or (height c) (js_or (clientHeight c) 0) = (if height c \<noteq> 0 then height c else clientHeight c)"
    by (simp_all add: js_or_def)
  then have 1: "canvas_area c = to_double (exact_area c)"
    by (simp only: canvas_area_def exact_area_def)
  have 2: "to_double n = n" if "n < 2 ^ 53" for n
    using that by (simp only: to_double_def if_True)
  from 1 2 show ?thesis by simp
qed

text \<open>
  Two canvases whose exact areas differ by one and whose areas as doubles are equal:
  the first is kept.
\<close>

text \<open>
  Two canvases whose exact areas differ by one and whose areas as doubles are equal:
  the first is kept.
\<close>

lemma bit_length_big:
  "bit_length 9007199515875288 = 54" "bit_length 9007199515875289 = 54"
  by (simp_all add: bit_length.simps)

lemma to_double_big:
  "to_double 9007199515875288 = 9007199515875288"
  "to_double 9007199515875289 = 9007199515875288"
  by (simp_all add: to_double_def bit_length_big Let_def)

lemma big_exact: "map exact_area document_big = [9007199515875288, 9007199515875289]"
  by (simp add: document_big_def exact_area_def)

lemma big_areas:
  "map canvas_area document_big = [9007199515875288, 9007199515875288]
   \<and> getCanvasHandle document_big = Some 0"
  by (simp add: document_big_def canvas_area_def js_or_def getCanvasHandle_def to_double_big)

text \<open>
  Claim C7. The canvas locator returns none exactly when the document has no canvas of
  non-zero area (so also when it has no canvas); otherwise it returns an element of
  non-zero area that no element exceeds and that every element before it in document
  order falls short of, which is the first element of greatest area. For areas
  0, 100, 50, 100 in document order that is the element at index 1. The area is the
  product of the width and the height as the page computes it, a double, each factor
  taken from the layout size when the backing-store size is zero; below \<open>2^53\<close> it is
  the exact product.
\<close>

theorem canvas_selection:
  "(getCanvasHandle doc = None \<longleftrightarrow> (\<forall>c \<in> set doc. canvas_area c = 0))
   \<and> (\<forall>k. getCanvasHandle doc = Some k \<longrightarrow>
          k < length doc \<and> 0 < canvas_area (doc ! k)
          \<and> (\<forall>j < length doc. canvas_area (doc ! j) \<le> canvas_area (doc ! k))
          \<and> (\<forall>j < k. canvas_area (doc ! j) < canvas_area (doc ! k)))
   \<and> (map canvas_area doc = [0, 100, 50, 100] \<longrightarrow> getCanvasHandle doc = Some 1)
   \<and> (\<forall>c \<in> set doc. canvas_area c = to_double (exact_area c)
          \<and> (exact_area c < 2 ^ 53 \<longrightarrow> canvas_area c = exact_area c))"
proof (intro conjI)
  show "getCanvasHandle doc = None \<longleftrightarrow> (\<forall>c \<in> set doc. canvas_area c = 0)"
    by (rule getCanvasHandle_None)
  show "\<forall>k. getCanvasHandle doc = Some k \<longrightarrow>
          k < length doc \<and> 0 < canvas_area (doc ! k)
          \<and> (\<forall>j < length doc. canvas_area (doc ! j) \<le> canvas_area (doc ! k))
          \<and> (\<forall>j < k. canvas_area (doc ! j) < canvas_area (doc ! k))"
    using getCanvasHandle_Some [of doc] by blast
  show "map canvas_area doc = [0, 100, 50, 100] \<longrightarrow> getCanvasHandle doc = Some 1"
    using getCanvasHandle_example [of doc] by blast
  show "\<forall>c \<in> set doc. canvas_area c = to_double (exact_area c)
          \<and> (exact_area c < 2 ^ 53 \<longrightarrow> canvas_area c = exact_area c)"
    using canvas_area_exact by blast
qed

theorem canvas_selection_witness:
  "map canvas_area document_a = [0, 100, 50, 100] \<and> getCanvasHandle document_a = Some 1
   \<and> map exact_area document_a = [0, 100, 50, 100]
   \<and> getCanvasHandle ([] :: canvas list) = None"
proof -
  have small: "to_double 0 = 0" "to_double 100 = 100" "to_double 50 = 50"
    by (simp_all add: to_double_def)
  show ?thesis
    using canvas_selection [of document_a] canvas_selection [of "[] :: canvas list"]
    by (simp add: document_a_def canvas_area_def exact_area_def js_or_def small
        getCanvasHandle_def)
qed

section \<open>Properties of the screenshot capturer\<close>





lemma strategy3_not_null: "strategy3 pg canvas buf \<noteq> Resolves None"
  by (simp add: strategy3_def split: option.splits awaited.splits)

lemma capture_result:
  "(\<exists>b. captureScreenshot pg canvas p fs = Inr (fs @ [(p, Png b)]))
   \<or> captureScreenshot pg canvas p fs = Inl Rejection"
proof (cases "strategy1 canvas")
  case Rejects
  then show ?thesis by (simp add: captureScreenshot_def)
next
  case (Resolves buf1)
  show ?thesis
  proof (cases "strategy3 pg canvas (strategy2 canvas buf1)")
    case Rejects
    then show ?thesis using Resolves by (simp add: captureScreenshot_def)
  next
    case r3: (Resolves buf3)
    then obtain b where "buf3 = Some b"
      using strategy3_not_null [of pg canvas "strategy2 canvas buf1"] by (cases buf3) auto
    then show ?thesis using Resolves r3 by (simp add: captureScreenshot_def writeFileSync_def)
  qed
qed








section \<open>Properties of the action choreographer\<close>


lemma prepend_prepend: "prepend xs (prepend ys r) = prepend (xs @ ys) r"
  by (simp add: prepend_def split: sum.splits)

lemma emitted_prepend: "emitted (prepend tr r) = tr @ emitted r"
  by (simp add: prepend_def emitted_def split: sum.splits)

lemma perform_prepend: "perform pg ev tr = prepend tr (perform pg ev [])"
  by (simp add: perform_def prepend_def)

text \<open>Each loop adds its events to the trace it is given.\<close>

lemma press_buttons_prepend:
  "press_buttons pg canvas st bs tr = prepend tr (press_buttons pg canvas st bs [])"
proof (induction bs arbitrary: tr)
  case Nil
  show ?case by (simp add: prepend_def)
next
  case (Cons b bs)
  show ?case
  proof (cases "is_mouse_button b")
    case False
    define ev where "ev = KeyDown (translate_key b)"
    show ?thesis
      using False Cons [of "tr @ [ev]"] Cons [of "[ev]"]
      by (simp add: perform_def ev_def [symmetric] prepend_prepend) (simp add: prepend_def)
  next
    case True
    show ?thesis
    proof (cases "canvas_boundingBox canvas")
      case Rejects
      then show ?thesis using True by (simp add: prepend_def)
    next
      case (Resolves bbo)
      show ?thesis
      proof (cases bbo)
        case None
        then show ?thesis using True Resolves Cons [of tr] by simp
      next
        case (Some bb)
        define mv where "mv = MouseMove
          (box_x bb + (case mouse_x st of Some x \<Rightarrow> x | None \<Rightarrow> box_width bb / 2))
          (box_y bb + (case mouse_y st of Some y \<Rightarrow> y | None \<Rightarrow> box_height bb / 2))"
        define dn where "dn = MouseDown (mouse_button b)"
        show ?thesis
          using True Resolves Some Cons [of "tr @ [mv, dn]"] Cons [of "[mv, dn]"]
          by (simp add: perform_def mv_def [symmetric] dn_def [symmetric] prepend_prepend)
            (simp add: prepend_def)
      qed
    qed
  qed
qed

lemma advance_frames_eq:
  "advance_frames pg n f tr =
     (if f < n \<and> \<not> call_resolves pg (frame_advance pg) then Inl tr
      else Inr (tr @ replicate (n - f) (frame_advance pg)))"
proof (induction pg n f tr rule: advance_frames.induct)
  case (1 pg n f tr)
  show ?case
  proof (cases "f < n")
    case False
    then show ?thesis by (simp add: advance_frames.simps [of pg n f tr])
  next
    case True
    then have r: "replicate (n - f) (frame_advance pg)
               = frame_advance pg # replicate (n - Suc f) (frame_advance pg)"
      by (simp add: Suc_diff_Suc flip: replicate_Suc)
    show ?thesis
    proof (cases "call_resolves pg (frame_advance pg)")
      case False
      then show ?thesis using True
        by (simp add: advance_frames.simps [of pg n f tr] perform_def frame_advance_def)
    next
      case ok: True
      have "advance_frames pg n f tr = advance_frames pg n (Suc f) (tr @ [frame_advance pg])"
        using True ok
        by (simp add: advance_frames.simps [of pg n f tr] perform_def frame_advance_def)
      also have "\<dots> = Inr ((tr @ [frame_advance pg]) @ replicate (n - Suc f) (frame_advance pg))"
        using "1.IH" [of "tr @ [frame_advance pg]"] True ok
        by (simp add: perform_def frame_advance_def)
      finally show ?thesis using True ok r by simp
    qed
  qed
qed

lemma release_buttons_prepend:
  "release_buttons pg bs tr = prepend tr (release_buttons pg bs [])"
proof (induction bs arbitrary: tr)
  case Nil
  show ?case by (simp add: prepend_def)
next
  case (Cons b bs)
  define ev where "ev = (if is_mouse_button b then MouseUp (mouse_button b)
                         else KeyUp (translate_key b))"
  show ?case
    using Cons [of "tr @ [ev]"] Cons [of "[ev]"]
    by (cases "is_mouse_button b"; simp add: perform_def ev_def prepend_prepend)
      (simp_all add: prepend_def)
qed










lemma step_frames_pos: "0 < step_frames st"
  by (simp add: step_frames_def js_or_def split: option.splits)

text \<open>A step from the empty trace, phase by phase.\<close>

lemma run_step_Nil:
  "run_step pg canvas st [] =
     (case press_buttons pg canvas st (step_buttons st) [] of
        Inl ps \<Rightarrow> Inl ps
      | Inr ps \<Rightarrow>
          (if \<not> call_resolves pg (frame_advance pg) then Inl ps
           else (case release_buttons pg (step_buttons st) [] of
                   Inl rs \<Rightarrow> Inl (ps @ replicate (step_frames st) (frame_advance pg) @ rs)
                 | Inr rs \<Rightarrow>
                     Inr (ps @ replicate (step_frames st) (frame_advance pg) @ rs
                          @ step_wait st []))))"
proof -
  have w: "step_wait st xs = xs @ step_wait st []" for xs
    by (simp add: step_wait_def split: option.splits)
  have p: "release_buttons pg bs tr = prepend tr (release_buttons pg bs [])" for bs tr
    by (rule release_buttons_prepend)
  show ?thesis
    using step_frames_pos [of st]
    by (simp add: run_step_def advance_frames_eq p [of _ "_ @ _"] prepend_def w [of "_ @ _"]
        split: sum.splits)
qed

lemma run_step_prepend: "run_step pg canvas st tr = prepend tr (run_step pg canvas st [])"
proof -
  have w: "step_wait st xs = xs @ step_wait st []" for xs
    by (simp add: step_wait_def split: option.splits)
  have p: "press_buttons pg canvas st bs tr = prepend tr (press_buttons pg canvas st bs [])" for bs
    by (rule press_buttons_prepend)
  have r: "release_buttons pg bs xs = prepend xs (release_buttons pg bs [])" for bs xs
    by (rule release_buttons_prepend)
  show ?thesis
    using step_frames_pos [of st]
    by (simp add: run_step_Nil run_step_def [of pg canvas st tr] p advance_frames_eq
        r [of _ "_ @ _"] prepend_def w [of "_ @ _"] split: sum.splits)
qed

lemma runActions_prepend:
  "runActions pg canvas sts tr = prepend tr (runActions pg canvas sts [])"
proof (induction sts arbitrary: tr)
  case Nil
  show ?case by (simp add: prepend_def)
next
  case (Cons st sts)
  show ?case
  proof (cases "run_step pg canvas st []")
    case (Inl t)
    then show ?thesis using run_step_prepend [of pg canvas st tr] by (simp add: prepend_def)
  next
    case (Inr t)
    then have "run_step pg canvas st tr = Inr (tr @ t)"
      using run_step_prepend [of pg canvas st tr] by (simp add: prepend_def)
    then show ?thesis using Inr Cons [of "tr @ t"] Cons [of t]
      by (simp add: prepend_prepend)
  qed
qed















section \<open>Properties of the virtual time shim\<close>

lemma window_inv_init: "window_inv makeVirtualTimeShim"
  by (simp add: window_inv_def makeVirtualTimeShim_def)

lemma schedule_fresh:
  assumes "window_inv w"
  shows "pending (schedule k w) = pending w @ [next_task w]" and "next_task w \<notin> set (pending w)"
proof -
  show f: "next_task w \<notin> set (pending w)" using assms by (auto simp: window_inv_def)
  show "pending (schedule k w) = pending w @ [next_task w]"
    using f by (simp add: schedule_def set_add_def set_has_def)
qed

lemma window_inv_schedule:
  assumes "window_inv w"
  shows "window_inv (schedule k w)"
proof -
  have p: "pending (schedule k w) = pending w @ [next_task w]"
    and f: "next_task w \<notin> set (pending w)"
    using schedule_fresh [OF assms] by simp_all
  have t: "timers (schedule k w) =
           timers w @ [\<lparr>timer_id = next_id w, timer_kind = k, timer_task = next_task w\<rparr>]"
    "next_id (schedule k w) = Suc (next_id w)" "next_task (schedule k w) = Suc (next_task w)"
    by (simp_all add: schedule_def)
  have a: "next_id w \<notin> timer_id ` set (timers w)" using assms by (auto simp: window_inv_def)
  have b: "next_task w \<notin> timer_task ` set (timers w)"
    using assms f by (auto simp: window_inv_def)
  show ?thesis
    unfolding window_inv_def p t
    using assms f a b by (auto simp: window_inv_def less_Suc_eq)
qed

lemma find_timer:
  assumes "distinct (map timer_id ts)" and "t \<in> set ts"
  shows "find (\<lambda>u. timer_id u = timer_id t) ts = Some t"
  using assms
proof (induction ts)
  case Nil
  then show ?case by simp
next
  case (Cons u ts)
  then show ?case by (cases "u = t") (auto simp: image_iff)
qed

lemma fire_registered:
  assumes "window_inv w" and "t \<in> set (timers w)"
  shows "fire (timer_id t) w = fire_timer t w"
  using find_timer [of "timers w" t] assms by (simp add: fire_def window_inv_def)

lemma filter_timer_id:
  assumes "distinct (map timer_id ts)" and "t \<in> set ts"
  shows "set (filter (\<lambda>u. timer_id u \<noteq> timer_id t) ts) = set ts - {t}"
  using assms by (auto simp: distinct_map inj_on_def)

lemma tasks_without:
  assumes "distinct (map timer_task ts)" and "t \<in> set ts"
  shows "timer_task ` (set ts - {t}) = timer_task ` set ts - {timer_task t}"
  using assms by (auto simp: distinct_map inj_on_def)

lemma window_inv_fire_timer:
  assumes "window_inv w" and "t \<in> set (timers w)"
  shows "window_inv (fire_timer t w)"
proof (cases "timer_kind t = Interval")
  case True
  then show ?thesis using assms by (simp add: fire_timer_def)
next
  case False
  have d: "distinct (map timer_id (timers w))" "distinct (map timer_task (timers w))"
    using assms by (simp_all add: window_inv_def)
  have s: "set (filter (\<lambda>u. timer_id u \<noteq> timer_id t) (timers w)) = set (timers w) - {t}"
    by (rule filter_timer_id [OF d(1) assms(2)])
  have p: "pending (fire_timer t w) = set_delete (timer_task t) (pending w)"
    and ts: "timers (fire_timer t w) = filter (\<lambda>u. timer_id u \<noteq> timer_id t) (timers w)"
    and n: "next_id (fire_timer t w) = next_id w" "next_task (fire_timer t w) = next_task w"
    using False by (cases "timer_kind t"; simp add: fire_timer_def)+
  have other: "timer_task u \<noteq> timer_task t" if "u \<in> set (timers w)" "u \<noteq> t" for u
    using that d(2) assms(2) by (auto simp: distinct_map inj_on_def)
  show ?thesis
    unfolding window_inv_def p ts n s
    using assms other
    by (auto simp: window_inv_def set_delete_def distinct_map_filter s)
qed

lemma window_inv_fire:
  assumes "window_inv w"
  shows "window_inv (fire h w)"
proof (cases "find (\<lambda>t. timer_id t = h) (timers w)")
  case None
  then show ?thesis using assms by (simp add: fire_def)
next
  case (Some t)
  then have "t \<in> set (timers w)" by (auto simp: find_Some_iff)
  then show ?thesis using Some assms window_inv_fire_timer [of w t] by (simp add: fire_def)
qed

lemma window_inv_filter_timers:
  assumes "window_inv w"
  shows "window_inv (w\<lparr>timers := filter P (timers w)\<rparr>)"
  using assms by (auto simp: window_inv_def distinct_map_filter)

lemma window_inv_step:
  assumes "window_inv w"
  shows "window_inv (window_step op w)"
proof (cases op)
  case SetTimeout
  then show ?thesis using assms by (simp add: setTimeout_def window_inv_schedule)
next
  case SetInterval
  then show ?thesis using assms by (simp add: setInterval_def window_inv_schedule)
next
  case RequestAnimationFrame
  then show ?thesis using assms by (simp add: requestAnimationFrame_def window_inv_schedule)
next
  case (Fire h)
  then show ?thesis using assms by (simp add: window_inv_fire)
next
  case (ClearTimeout h)
  then show ?thesis using window_inv_filter_timers [OF assms] by (simp add: clearTimeout_def)
next
  case (CancelAnimationFrame h)
  then show ?thesis using window_inv_filter_timers [OF assms]
    by (simp add: cancelAnimationFrame_def)
qed

lemma window_inv_run:
  assumes "window_inv w"
  shows "window_inv (window_run ops w)"
  using assms
proof (induction ops arbitrary: w)
  case Nil
  then show ?case by simp
next
  case (Cons op ops)
  then show ?case using window_inv_step [of w op] by simp
qed

lemma window_inv_reachable: "window_inv (window_run ops makeVirtualTimeShim)"
  by (rule window_inv_run [OF window_inv_init])

text \<open>
  A pending task that only intervals hold, or that no timer holds, is deleted by no
  operation.
\<close>

lemma stuck_task_step:
  assumes "window_inv w" and "k \<in> set (pending w)"
    and "\<forall>u \<in> set (timers w). timer_task u = k \<longrightarrow> timer_kind u = Interval"
  shows "k \<in> set (pending (window_step op w))
         \<and> (\<forall>u \<in> set (timers (window_step op w)). timer_task u = k \<longrightarrow> timer_kind u = Interval)"
proof -
  have lt: "k < next_task w" using assms(1,2) by (auto simp: window_inv_def)
  have sch: "k \<in> set (pending (schedule q w))
         \<and> (\<forall>u \<in> set (timers (schedule q w)). timer_task u = k \<longrightarrow> timer_kind u = Interval)" for q
    using assms lt schedule_fresh(1) [OF assms(1), of q] by (auto simp: schedule_def)
  have fi: "k \<in> set (pending (fire h w))
         \<and> (\<forall>u \<in> set (timers (fire h w)). timer_task u = k \<longrightarrow> timer_kind u = Interval)" for h
  proof (cases "find (\<lambda>t. timer_id t = h) (timers w)")
    case None
    then show ?thesis using assms by (simp add: fire_def)
  next
    case (Some t)
    then have t: "t \<in> set (timers w)" by (auto simp: find_Some_iff)
    show ?thesis
    proof (cases "timer_kind t = Interval")
      case True
      then show ?thesis using Some assms by (simp add: fire_def fire_timer_def)
    next
      case False
      then have "timer_task t \<noteq> k" using assms(3) t by auto
      then show ?thesis using Some assms False
        by (cases "timer_kind t") (auto simp: fire_def fire_timer_def set_delete_def)
    qed
  qed
  show ?thesis
    using sch fi assms(2,3)
    by (cases op)
      (auto simp: setTimeout_def setInterval_def requestAnimationFrame_def clearTimeout_def
        cancelAnimationFrame_def simp del: split_paired_All)
qed

lemma stuck_task_run:
  assumes "window_inv w" and "k \<in> set (pending w)"
    and "\<forall>u \<in> set (timers w). timer_task u = k \<longrightarrow> timer_kind u = Interval"
  shows "k \<in> set (pending (window_run ops w))
         \<and> (\<forall>u \<in> set (timers (window_run ops w)). timer_task u = k \<longrightarrow> timer_kind u = Interval)"
  using assms
proof (induction ops arbitrary: w)
  case Nil
  then show ?case by simp
next
  case (Cons op ops)
  from stuck_task_step [OF Cons.prems, of op] window_inv_step [OF Cons.prems(1), of op]
  show ?case using Cons.IH [of "window_step op w"] by simp
qed

lemma leaked_task_run:
  assumes "window_inv w" and "k \<in> set (leaked w)"
  shows "k \<in> set (leaked (window_run ops w))"
proof -
  have a: "k \<in> set (pending w)" and b: "k \<notin> timer_task ` set (timers w)"
    using assms(2) by (simp_all add: leaked_def)
  have i: "window_inv (window_run [] w)" using assms(1) by simp
  have step: "k \<in> set (pending (window_run ops w)) \<and> k \<notin> timer_task ` set (timers (window_run ops w))"
    if "window_inv w" "k \<in> set (pending w)" "k \<notin> timer_task ` set (timers w)" for w
    using that
  proof (induction ops arbitrary: w)
    case Nil
    then show ?case by simp
  next
    case (Cons op ops)
    have lt: "k < next_task w" using Cons.prems by (auto simp: window_inv_def)
    have p: "k \<in> set (pending (window_step op w))"
      using stuck_task_step [OF Cons.prems(1,2), of op] Cons.prems(3) by auto
    have sub: "timer_task ` set (timers (window_step op w)) \<subseteq> timer_task ` set (timers w) \<union> {next_task w}"
    proof (cases op)
      case (Fire h)
      then show ?thesis
        by (auto simp: fire_def fire_timer_def split: option.splits timer_kind.splits)
    qed (auto simp: setTimeout_def setInterval_def requestAnimationFrame_def schedule_def
          clearTimeout_def cancelAnimationFrame_def)
    have "k \<notin> timer_task ` set (timers (window_step op w))"
      using sub lt Cons.prems(3) by auto
    with p window_inv_step [OF Cons.prems(1), of op] Cons.IH [of "window_step op w"]
    show ?case by simp
  qed
  from step [OF assms(1) a b] show ?thesis by (simp add: leaked_def)
qed

lemma handle_gone_run:
  assumes "window_inv w" and "h < next_id w" and "h \<notin> timer_id ` set (timers w)"
  shows "h < next_id (window_run ops w) \<and> h \<notin> timer_id ` set (timers (window_run ops w))"
  using assms
proof (induction ops arbitrary: w)
  case Nil
  then show ?case by simp
next
  case (Cons op ops)
  have "h < next_id (window_step op w) \<and> h \<notin> timer_id ` set (timers (window_step op w))"
  proof (cases op)
    case (Fire g)
    then show ?thesis using Cons.prems(2,3)
      by (auto simp: fire_def fire_timer_def split: option.splits timer_kind.splits)
  qed (use Cons.prems(2,3) in \<open>auto simp: setTimeout_def setInterval_def
          requestAnimationFrame_def schedule_def clearTimeout_def cancelAnimationFrame_def\<close>)
  with window_inv_step [OF Cons.prems(1), of op] Cons.IH [of "window_step op w"]
  show ?case by simp
qed

lemma pending_count:
  assumes "window_inv w"
  shows "length (pending w) = length (timers w) + length (leaked w)"
proof -
  let ?Q = "\<lambda>k. k \<in> timer_task ` set (timers w)"
  have d: "distinct (pending w)" "distinct (map timer_task (timers w))"
    using assms by (simp_all add: window_inv_def)
  have sub: "timer_task ` set (timers w) \<subseteq> set (pending w)"
    using assms by (auto simp: window_inv_def)
  have e: "set (filter ?Q (pending w)) = set (map timer_task (timers w))" using sub by auto
  have "length (filter ?Q (pending w)) = card (set (filter ?Q (pending w)))"
    using d(1) by (simp only: distinct_card distinct_filter)
  also have "\<dots> = card (set (map timer_task (timers w)))" by (simp only: e)
  also have "\<dots> = length (map timer_task (timers w))" using d(2) by (rule distinct_card)
  finally have "length (filter ?Q (pending w)) = length (map timer_task (timers w))" .
  moreover have "length (pending w)
      = length (filter ?Q (pending w)) + length (filter (\<lambda>k. \<not> ?Q k) (pending w))"
    by (rule sum_length_filter_compl [symmetric])
  ultimately show ?thesis by (simp add: leaked_def)
qed

lemma cancel_removes:
  assumes "window_inv w" and "t \<in> set (timers w)"
  shows "pending (window_step (cancel_op t) w) = pending w"
    and "set (timers (window_step (cancel_op t) w)) = set (timers w) - {t}"
    and "next_id (window_step (cancel_op t) w) = next_id w"
proof -
  have d: "distinct (map timer_id (timers w))" using assms by (simp add: window_inv_def)
  have same: "u = t" if "u \<in> set (timers w)" "timer_id u = timer_id t" for u
    using that d assms(2) by (auto simp: distinct_map inj_on_def)
  show "pending (window_step (cancel_op t) w) = pending w"
    by (simp add: cancel_op_def clearTimeout_def cancelAnimationFrame_def)
  show "next_id (window_step (cancel_op t) w) = next_id w"
    by (simp add: cancel_op_def clearTimeout_def cancelAnimationFrame_def)
  show "set (timers (window_step (cancel_op t) w)) = set (timers w) - {t}"
    using same by (auto simp: cancel_op_def clearTimeout_def cancelAnimationFrame_def)
qed

lemma cancel_leaks:
  assumes "window_inv w" and "t \<in> set (timers w)"
  shows "timer_task t \<in> set (leaked (window_step (cancel_op t) w))"
    and "length (leaked (window_step (cancel_op t) w)) = Suc (length (leaked w))"
    and "Suc (length (timers (window_step (cancel_op t) w))) = length (timers w)"
proof -
  let ?w = "window_step (cancel_op t) w"
  have i: "window_inv ?w" by (rule window_inv_step [OF assms(1)])
  have d: "distinct (map timer_task (timers w))" using assms by (simp add: window_inv_def)
  have tasks: "timer_task ` set (timers ?w) = timer_task ` set (timers w) - {timer_task t}"
    using cancel_removes(2) [OF assms] tasks_without [OF d assms(2)] by simp
  have p: "timer_task t \<in> set (pending w)" using assms by (auto simp: window_inv_def)
  show "timer_task t \<in> set (leaked ?w)"
    using p tasks cancel_removes(1) [OF assms] by (simp add: leaked_def)
  have c: "card (set (timers ?w)) = card (set (timers w)) - 1"
    using cancel_removes(2) [OF assms] assms(2) by simp
  have dw: "distinct (timers w)" "distinct (timers ?w)"
    using assms(1) i by (auto simp: window_inv_def distinct_map)
  have "length (timers ?w) = length (timers w) - 1"
    using c dw by (simp add: distinct_card)
  moreover have "0 < length (timers w)" using assms(2) by (cases "timers w") auto
  ultimately show l: "Suc (length (timers ?w)) = length (timers w)" by simp
  have "length (pending ?w) = length (timers ?w) + length (leaked ?w)"
    by (rule pending_count [OF i])
  moreover have "length (pending w) = length (timers w) + length (leaked w)"
    by (rule pending_count [OF assms(1)])
  ultimately show "length (leaked ?w) = Suc (length (leaked w))"
    using l cancel_removes(1) [OF assms] by simp
qed

lemma length_set_delete:
  assumes "distinct xs" and "k \<in> set xs"
  shows "Suc (length (set_delete k xs)) = length xs" and "k \<notin> set (set_delete k xs)"
proof -
  have none: "filter (\<lambda>y. y = k) ys = []" if "k \<notin> set ys" for ys :: "'a list"
    using that by (induction ys) auto
  have "length (filter (\<lambda>y. y = k) xs) = 1"
    using assms by (induction xs) (auto simp: none)
  moreover have "length xs = length (filter (\<lambda>y. y = k) xs) + length (filter (\<lambda>y. \<not> y = k) xs)"
    by (rule sum_length_filter_compl [symmetric])
  ultimately show "Suc (length (set_delete k xs)) = length xs" by (simp add: set_delete_def)
  show "k \<notin> set (set_delete k xs)" by (simp add: set_delete_def)
qed

lemma fire_once:
  assumes "window_inv w" and "t \<in> set (timers w)" and "timer_kind t \<noteq> Interval"
  shows "pending (fire (timer_id t) w) = set_delete (timer_task t) (pending w)"
  using assms fire_registered [OF assms(1,2)]
  by (cases "timer_kind t") (simp_all add: fire_timer_def)

lemma fire_interval:
  assumes "window_inv w" and "t \<in> set (timers w)" and "timer_kind t = Interval"
  shows "fire (timer_id t) w = w"
  using assms fire_registered [OF assms(1,2)] by (simp add: fire_timer_def)

lemma interval_task_stays:
  assumes "window_inv w" and "t \<in> set (timers w)" and "timer_kind t = Interval"
  shows "timer_task t \<in> set (pending (window_run ops w))"
proof -
  have p: "timer_task t \<in> set (pending w)" using assms by (auto simp: window_inv_def)
  have d: "distinct (map timer_task (timers w))" using assms by (simp add: window_inv_def)
  have "u = t" if "u \<in> set (timers w)" "timer_task u = timer_task t" for u
    using that d assms(2) by (auto simp: distinct_map inj_on_def)
  then have "\<forall>u \<in> set (timers w). timer_task u = timer_task t \<longrightarrow> timer_kind u = Interval"
    using assms(3) by auto
  from stuck_task_run [OF assms(1) p this] show ?thesis by simp
qed

text \<open>
  Claim C9. In every window that the operations reach after the shim ran: a call of the
  wrapped \<open>setTimeout\<close>, \<open>requestAnimationFrame\<close> or \<open>setInterval\<close> adds exactly one entry,
  a new one, to the pending set; when the callback of a registered timeout or frame
  request fires, exactly its entry is removed; when an interval fires nothing changes,
  and its entry stays pending whatever happens later; and \<open>__drainVirtualTimePending\<close>
  returns the size of the pending set.
\<close>

theorem pending_set_tracking:
  assumes "w = window_run ops makeVirtualTimeShim"
  shows "next_task w \<notin> set (pending w)
   \<and> pending (setTimeout w) = pending w @ [next_task w]
   \<and> pending (requestAnimationFrame w) = pending w @ [next_task w]
   \<and> pending (setInterval w) = pending w @ [next_task w]
   \<and> (\<forall>t \<in> set (timers w). timer_kind t \<noteq> Interval \<longrightarrow>
         timer_task t \<in> set (pending w)
         \<and> pending (fire (timer_id t) w) = set_delete (timer_task t) (pending w)
         \<and> timer_task t \<notin> set (pending (fire (timer_id t) w))
         \<and> Suc (drainVirtualTimePending (fire (timer_id t) w)) = drainVirtualTimePending w)
   \<and> (\<forall>t \<in> set (timers w). timer_kind t = Interval \<longrightarrow>
         fire (timer_id t) w = w
         \<and> (\<forall>later. timer_task t \<in> set (pending (window_run later w))))
   \<and> drainVirtualTimePending w = card (set (pending w))"
proof -
  have i: "window_inv w" using assms window_inv_reachable by simp
  have 1: "next_task w \<notin> set (pending w)" by (rule schedule_fresh(2) [OF i])
  have 2: "pending (setTimeout w) = pending w @ [next_task w]"
    "pending (requestAnimationFrame w) = pending w @ [next_task w]"
    "pending (setInterval w) = pending w @ [next_task w]"
    using schedule_fresh(1) [OF i]
    by (simp_all add: setTimeout_def requestAnimationFrame_def setInterval_def)
  have 3: "timer_task t \<in> set (pending w)
         \<and> pending (fire (timer_id t) w) = set_delete (timer_task t) (pending w)
         \<and> timer_task t \<notin> set (pending (fire (timer_id t) w))
         \<and> Suc (drainVirtualTimePending (fire (timer_id t) w)) = drainVirtualTimePending w"
    if t: "t \<in> set (timers w)" "timer_kind t \<noteq> Interval" for t
  proof -
    have p: "timer_task t \<in> set (pending w)" and d: "distinct (pending w)"
      using i t(1) by (auto simp: window_inv_def)
    show ?thesis
      using p fire_once [OF i t] length_set_delete [OF d p]
      by (simp add: drainVirtualTimePending_def set_size_def)
  qed
  have 4: "fire (timer_id t) w = w
         \<and> (\<forall>later. timer_task t \<in> set (pending (window_run later w)))"
    if t: "t \<in> set (timers w)" "timer_kind t = Interval" for t
    using fire_interval [OF i t] interval_task_stays [OF i t] by simp
  have 5: "drainVirtualTimePending w = card (set (pending w))"
    using i by (simp add: drainVirtualTimePending_def set_size_def window_inv_def distinct_card)
  from 1 2 3 4 5 show ?thesis by blast
qed

theorem pending_set_tracking_witness:
  "window_three = window_run [SetTimeout, SetInterval, RequestAnimationFrame] makeVirtualTimeShim
   \<and> pending window_three = [0, 1, 2]
   \<and> pending (setTimeout window_three) = [0, 1, 2, 3]
   \<and> pending (fire 0 window_three) = [1, 2]
   \<and> pending (fire 1 window_three) = [0, 1, 2]
   \<and> pending (fire 2 window_three) = [0, 1]
   \<and> drainVirtualTimePending window_three = 3"
  using pending_set_tracking
    [of window_three "[SetTimeout, SetInterval, RequestAnimationFrame]"]
  by (simp add: window_three_def makeVirtualTimeShim_def setTimeout_def setInterval_def
      requestAnimationFrame_def schedule_def set_add_def set_has_def set_delete_def fire_def
      fire_timer_def drainVirtualTimePending_def set_size_def)

text \<open>
  Claim C10. The native \<open>clearTimeout\<close>, \<open>clearInterval\<close> and \<open>cancelAnimationFrame\<close> leave
  the pending set as it is. After a registered timer is cancelled, in every window
  reached from there its handle is registered no more, so its callback does not fire,
  and its task stays in the pending set, held by no timer. The count that
  \<open>__drainVirtualTimePending\<close> returns is the number of registered timers plus the
  number of such tasks, and each cancellation makes that number one more while the
  count stays as it was with one timer less.
\<close>

theorem cancelled_timer_leaks:
  assumes "w = window_run ops makeVirtualTimeShim"
    and "t \<in> set (timers w)"
    and "w' = window_step (cancel_op t) w"
    and "w'' = window_run later w'"
  shows "pending (clearTimeout h w) = pending w
   \<and> pending (cancelAnimationFrame h w) = pending w
   \<and> timer_id t \<notin> timer_id ` set (timers w'')
   \<and> fire (timer_id t) w'' = w''
   \<and> timer_task t \<in> set (pending w'')
   \<and> timer_task t \<in> set (leaked w'')
   \<and> drainVirtualTimePending w'' = length (timers w'') + length (leaked w'')
   \<and> drainVirtualTimePending w' = drainVirtualTimePending w
   \<and> Suc (length (timers w')) = length (timers w)
   \<and> length (leaked w') = Suc (length (leaked w))
   \<and> set (leaked w') \<subseteq> set (leaked w'')"
proof -
  have i: "window_inv w" using assms(1) window_inv_reachable by simp
  have i': "window_inv w'" unfolding assms(3) by (rule window_inv_step [OF i])
  have i'': "window_inv w''" unfolding assms(4) by (rule window_inv_run [OF i'])
  have 1: "pending (clearTimeout h w) = pending w"
    "pending (cancelAnimationFrame h w) = pending w"
    by (simp_all add: clearTimeout_def cancelAnimationFrame_def)
  have lt: "timer_id t < next_id w'"
    using i assms(2) cancel_removes(3) [OF i assms(2)]
    unfolding assms(3) by (auto simp: window_inv_def)
  have di: "distinct (map timer_id (timers w))" using i by (simp add: window_inv_def)
  have gone: "timer_id t \<notin> timer_id ` set (timers w')"
  proof
    assume "timer_id t \<in> timer_id ` set (timers w')"
    then obtain u where u: "u \<in> set (timers w')" "timer_id u = timer_id t" by auto
    then have "u \<in> set (timers w)" "u \<noteq> t"
      using cancel_removes(2) [OF i assms(2)] unfolding assms(3) by auto
    then show False using u(2) di assms(2) by (auto simp: distinct_map inj_on_def)
  qed
  have 2: "timer_id t \<notin> timer_id ` set (timers w'')"
    using handle_gone_run [OF i' lt gone, of later] unfolding assms(4) by simp
  have "\<not> (\<exists>u. u \<in> set (timers w'') \<and> timer_id u = timer_id t)"
    using 2 by (metis imageI)
  then have "find (\<lambda>u. timer_id u = timer_id t) (timers w'') = None"
    by (simp add: find_None_iff)
  then have 3: "fire (timer_id t) w'' = w''" by (simp add: fire_def)
  have l': "timer_task t \<in> set (leaked w')"
    using cancel_leaks(1) [OF i assms(2)] unfolding assms(3) by simp
  have 4: "set (leaked w') \<subseteq> set (leaked w'')"
    using leaked_task_run [OF i', of _ later] unfolding assms(4) by auto
  have 5: "timer_task t \<in> set (leaked w'')" using l' 4 by auto
  then have 6: "timer_task t \<in> set (pending w'')" by (simp add: leaked_def)
  have 7: "drainVirtualTimePending w'' = length (timers w'') + length (leaked w'')"
    using pending_count [OF i''] by (simp add: drainVirtualTimePending_def set_size_def)
  have 8: "drainVirtualTimePending w' = drainVirtualTimePending w"
    using cancel_removes(1) [OF i assms(2)] unfolding assms(3)
    by (simp add: drainVirtualTimePending_def)
  have 9: "Suc (length (timers w')) = length (timers w)"
    "length (leaked w') = Suc (length (leaked w))"
    using cancel_leaks(2,3) [OF i assms(2)] unfolding assms(3) by simp_all
  from 1 2 3 4 5 6 7 8 9 show ?thesis by blast
qed

theorem cancelled_timer_leaks_witness:
  "timer_zero \<in> set (timers (window_run [SetTimeout, RequestAnimationFrame] makeVirtualTimeShim))
   \<and> window_step (cancel_op timer_zero)
        (window_run [SetTimeout, RequestAnimationFrame] makeVirtualTimeShim) =
       \<lparr>pending = [0, 1], next_task = 2,
        timers = [\<lparr>timer_id = 1, timer_kind = AnimationFrame, timer_task = 1\<rparr>],
        next_id = 2\<rparr>
   \<and> window_run [Fire 0, Fire 1, SetTimeout]
        (window_step (cancel_op timer_zero)
           (window_run [SetTimeout, RequestAnimationFrame] makeVirtualTimeShim)) =
       \<lparr>pending = [0, 2], next_task = 3,
        timers = [\<lparr>timer_id = 2, timer_kind = Timeout, timer_task = 2\<rparr>],
        next_id = 3\<rparr>"
  using cancelled_timer_leaks
    [of "window_run [SetTimeout, RequestAnimationFrame] makeVirtualTimeShim"
        "[SetTimeout, RequestAnimationFrame]" timer_zero
        "window_step (cancel_op timer_zero)
           (window_run [SetTimeout, RequestAnimationFrame] makeVirtualTimeShim)"
        "window_run [Fire 0, Fire 1, SetTimeout]
           (window_step (cancel_op timer_zero)
              (window_run [SetTimeout, RequestAnimationFrame] makeVirtualTimeShim))"
        "[Fire 0, Fire 1, SetTimeout]" 0]
  by (simp add: timer_zero_def cancel_op_def makeVirtualTimeShim_def setTimeout_def
      setInterval_def requestAnimationFrame_def schedule_def set_add_def set_has_def
      set_delete_def fire_def fire_timer_def clearTimeout_def cancelAnimationFrame_def)

section \<open>Properties of the iteration controller\<close>


lemma ingest_all_errors:
  "errors (ingest_all es t) \<noteq> [] \<longleftrightarrow>
     errors t \<noteq> [] \<or> (\<exists>e \<in> set es. JSON_stringify e \<notin> set (seen t))"
proof (induction es arbitrary: t)
  case Nil
  show ?case by simp
next
  case (Cons e es)
  show ?case
  proof (cases "JSON_stringify e \<in> set (seen t)")
    case True
    then have "ingest e t = t" by (simp add: ingest_def set_has_def)
    then show ?thesis using Cons [of t] True by simp
  next
    case False
    then have "errors (ingest e t) \<noteq> []" by (simp add: ingest_def set_has_def Let_def)
    then show ?thesis using Cons [of "ingest e t"] False by auto
  qed
qed








lemma capture_appends:
  "captureScreenshot pg canvas p fs =
     (case captureScreenshot pg canvas p [] of Inl e \<Rightarrow> Inl e | Inr w \<Rightarrow> Inr (fs @ w))"
  by (simp add: captureScreenshot_def writeFileSync_def
      split: awaited.splits option.splits)

lemma write_state_appends: "write_state i s fs = fs @ write_state i s []"
  by (simp add: write_state_def split: option.splits)

text \<open>One turn of the loop whose awaited calls resolve.\<close>

lemma loop_turn:
  assumes "i < n" and "iteration_resolves env i"
  shows "iteration_loop env n i t fs tr =
     (if fst (drain (ingest_all (iter_events env i) t)) \<noteq> [] then
        (fs @ iteration_writes env i
            @ [(Errors i, ErrorsJson (fst (drain (ingest_all (iter_events env i) t))))],
         Failed, iteration_actions env i tr)
      else iteration_loop env n (Suc i) (snd (drain (ingest_all (iter_events env i) t)))
             (fs @ iteration_writes env i) (iteration_actions env i tr))"
proof -
  from assms(2) obtain canvas where c: "iter_canvas env i = Resolves canvas"
    by (cases "iter_canvas env i") (simp_all add: iteration_resolves_def)
  from assms(2) c obtain a where a: "runActions (env_page env) canvas (steps env) [] = Inr a"
    by (cases "runActions (env_page env) canvas (steps env) []")
      (simp_all add: iteration_resolves_def)
  from assms(2) c obtain w where
    w: "captureScreenshot (env_page env) canvas (Shot i) ([] :: artifact fs) = Inr w"
    by (cases "captureScreenshot (env_page env) canvas (Shot i) ([] :: artifact fs)")
      (simp_all add: iteration_resolves_def)
  from assms(2) c obtain ts where ts: "iter_textState env i = Resolves ts"
    by (cases "iter_textState env i") (simp_all add: iteration_resolves_def)
  have a': "runActions (env_page env) canvas (steps env) tr = Inr (tr @ a)"
    using runActions_prepend [of "env_page env" canvas "steps env" tr] a
    by (simp add: prepend_def)
  have w': "captureScreenshot (env_page env) canvas (Shot i) fs = Inr (fs @ w)"
    using capture_appends [of "env_page env" canvas "Shot i" fs] w by simp
  have iw: "iteration_writes env i = write_state i ts w"
    by (simp add: iteration_writes_def c w ts)
  have ia: "iteration_actions env i tr = tr @ a @ [Sleep (pauseMs env)]"
    by (simp add: iteration_actions_def c a emitted_def)
  have ws: "write_state i ts (fs @ w) = fs @ write_state i ts w"
    by (simp add: write_state_def split: option.splits)
  show ?thesis
    using assms(1)
    by (simp add: iteration_loop.simps [of env n i t fs tr] c a' w' ts iw ia ws Let_def)
qed

text \<open>One turn of the loop in which an awaited call rejects.\<close>

lemma loop_rejects:
  assumes "i < n" and "\<not> iteration_resolves env i"
  shows "\<exists>ws e tr'. iteration_loop env n i t fs tr = (fs @ ws, Rejected e, tr')
           \<and> fst ` set ws \<subseteq> {Shot i}"
proof (cases "iter_canvas env i")
  case Rejects
  then show ?thesis using assms(1)
    by (simp add: iteration_loop.simps [of env n i t fs tr])
next
  case (Resolves canvas)
  show ?thesis
  proof (cases "runActions (env_page env) canvas (steps env) []")
    case (Inl a)
    then have "runActions (env_page env) canvas (steps env) tr = Inl (tr @ a)"
      using runActions_prepend [of "env_page env" canvas "steps env" tr]
      by (simp add: prepend_def)
    then show ?thesis using assms(1) Resolves
      by (simp add: iteration_loop.simps [of env n i t fs tr])
  next
    case (Inr a)
    then have a': "runActions (env_page env) canvas (steps env) tr = Inr (tr @ a)"
      using runActions_prepend [of "env_page env" canvas "steps env" tr]
      by (simp add: prepend_def)
    show ?thesis
    proof (cases "captureScreenshot (env_page env) canvas (Shot i) ([] :: artifact fs)")
      case (Inl e)
      then have "captureScreenshot (env_page env) canvas (Shot i) fs = Inl e"
        using capture_appends [of "env_page env" canvas "Shot i" fs] by simp
      then show ?thesis using assms(1) Resolves a'
        by (simp add: iteration_loop.simps [of env n i t fs tr])
    next
      case w: (Inr w)
      then have w': "captureScreenshot (env_page env) canvas (Shot i) fs = Inr (fs @ w)"
        using capture_appends [of "env_page env" canvas "Shot i" fs] by simp
      have "\<exists>b. w = [(Shot i, Png b)]"
        using capture_result [of "env_page env" canvas "Shot i" "[]"] w by auto
      then have nw: "fst ` set w \<subseteq> {Shot i}" by auto
      have "iter_textState env i = Rejects"
        using assms(2) Resolves Inr w by (simp add: iteration_resolves_def)
      then show ?thesis using assms(1) Resolves a' w' nw
        by (simp add: iteration_loop.simps [of env n i t fs tr])
    qed
  qed
qed

lemma loop_done: "\<not> i < n \<Longrightarrow> iteration_loop env n i t fs tr = (fs, Passed, tr)"
  by (simp add: iteration_loop.simps [of env n i t fs tr])

lemma loop_quiet:
  assumes "i < n" and "iteration_resolves env i" and "fresh_at env i = []"
  shows "iteration_loop env n i (tracker_at env i) fs tr
         = iteration_loop env n (Suc i) (tracker_at env (Suc i)) (fs @ iteration_writes env i)
             (iteration_actions env i tr)"
  using assms(3) by (simp add: loop_turn [OF assms(1,2)] fresh_at_def)

lemma loop_fresh:
  assumes "i < n" and "iteration_resolves env i" and "fresh_at env i \<noteq> []"
  shows "iteration_loop env n i (tracker_at env i) fs tr
         = (fs @ iteration_writes env i @ [(Errors i, ErrorsJson (fresh_at env i))], Failed,
            iteration_actions env i tr)"
  using assms(3) by (simp add: loop_turn [OF assms(1,2)] fresh_at_def)

lemma loop_passes:
  assumes "\<forall>j. i \<le> j \<and> j < n \<longrightarrow> iteration_resolves env j \<and> fresh_at env j = []"
  shows "iteration_loop env n i (tracker_at env i) fs tr
         = (fs @ concat (map (iteration_writes env) [i..<n]), Passed,
            iterations_actions env [i..<n] tr)"
  using assms
proof (induction "n - i" arbitrary: i fs tr)
  case 0
  then show ?case by (simp add: loop_done iterations_actions_def)
next
  case (Suc d)
  then have lt: "i < n" by simp
  have q: "iteration_resolves env i" "fresh_at env i = []" using Suc.prems lt by simp_all
  have "iteration_loop env n (Suc i) (tracker_at env (Suc i)) (fs @ iteration_writes env i)
          (iteration_actions env i tr)
        = ((fs @ iteration_writes env i) @ concat (map (iteration_writes env) [Suc i..<n]),
           Passed, iterations_actions env [Suc i..<n] (iteration_actions env i tr))"
    using Suc.hyps(1) [of "Suc i"] Suc.hyps(2) Suc.prems by simp
  then show ?case using loop_quiet [OF lt q, of fs tr] lt
    by (simp add: upt_conv_Cons iterations_actions_def)
qed

lemma loop_fails:
  assumes "i \<le> k" and "k < n"
    and "\<forall>j. i \<le> j \<and> j < k \<longrightarrow> iteration_resolves env j \<and> fresh_at env j = []"
    and "iteration_resolves env k" and "fresh_at env k \<noteq> []"
  shows "iteration_loop env n i (tracker_at env i) fs tr
         = (fs @ concat (map (iteration_writes env) [i..<Suc k])
               @ [(Errors k, ErrorsJson (fresh_at env k))], Failed,
            iterations_actions env [i..<Suc k] tr)"
  using assms(1,3)
proof (induction "k - i" arbitrary: i fs tr)
  case 0
  then have "i = k" by simp
  then show ?case using loop_fresh [OF assms(2,4,5), of fs tr]
    by (simp add: iterations_actions_def)
next
  case (Suc d)
  then have lt: "i < k" by simp
  then have ln: "i < n" using assms(2) by simp
  have q: "iteration_resolves env i" "fresh_at env i = []" using Suc.prems lt by simp_all
  have "iteration_loop env n (Suc i) (tracker_at env (Suc i)) (fs @ iteration_writes env i)
          (iteration_actions env i tr)
        = ((fs @ iteration_writes env i) @ concat (map (iteration_writes env) [Suc i..<Suc k])
             @ [(Errors k, ErrorsJson (fresh_at env k))], Failed,
           iterations_actions env [Suc i..<Suc k] (iteration_actions env i tr))"
    using Suc.hyps(1) [of "Suc i"] Suc.hyps(2) Suc.prems lt by simp
  then show ?case using loop_quiet [OF ln q, of fs tr] lt
    by (simp add: upt_conv_Cons iterations_actions_def)
qed

lemma iteration_writes_names:
  "fst ` set (iteration_writes env j) \<subseteq> {Shot j, State j}
   \<and> (iteration_resolves env j \<longrightarrow> Shot j \<in> fst ` set (iteration_writes env j))"
proof (cases "iter_canvas env j")
  case Rejects
  then show ?thesis by (simp add: iteration_writes_def iteration_resolves_def)
next
  case (Resolves canvas)
  show ?thesis
  proof (cases "captureScreenshot (env_page env) canvas (Shot j) ([] :: artifact fs)")
    case (Inl e)
    then show ?thesis using Resolves by (simp add: iteration_writes_def iteration_resolves_def)
  next
    case (Inr w)
    then have "\<exists>b. w = [(Shot j, Png b)]"
      using capture_result [of "env_page env" canvas "Shot j" "[]"] by auto
    then show ?thesis using Resolves Inr
      by (auto simp: iteration_writes_def write_state_def
          split: awaited.splits option.splits)
  qed
qed

lemma writes_names:
  assumes "(a, c) \<in> set (concat (map (iteration_writes env) js))"
  shows "\<exists>j \<in> set js. a = Shot j \<or> a = State j"
proof -
  from assms obtain j where j: "j \<in> set js" "(a, c) \<in> set (iteration_writes env j)" by auto
  then have "fst (a, c) \<in> fst ` set (iteration_writes env j)" by (intro imageI)
  then have "a \<in> {Shot j, State j}" using iteration_writes_names [of env j] by auto
  then show ?thesis using j(1) by blast
qed

lemma boot_check_files:
  "fst (boot_check env) =
     (if boot_events env \<noteq> []
      then [(ErrorsBoot, ErrorsJson (fst (drain (ingest_all (boot_events env) new_tracker))))]
      else [])"
proof -
  have "errors (ingest_all (boot_events env) new_tracker) \<noteq> [] \<longleftrightarrow> boot_events env \<noteq> []"
    using ingest_all_errors [of "boot_events env" new_tracker]
    by (cases "boot_events env") (auto simp: new_tracker_def)
  then show ?thesis by (simp add: boot_check_def drain_def Let_def)
qed


text \<open>The loop does not pass when some turn rejects or drains a record.\<close>

lemma loop_stops:
  assumes "i \<le> k" and "k < n"
    and "\<forall>j. i \<le> j \<and> j < k \<longrightarrow> iteration_resolves env j \<and> fresh_at env j = []"
    and "\<not> (iteration_resolves env k \<and> fresh_at env k = [])"
  shows "fst (snd (iteration_loop env n i (tracker_at env i) fs tr)) \<noteq> Passed"
  using assms(1,3)
proof (induction "k - i" arbitrary: i fs tr)
  case 0
  then have ik: "i = k" by simp
  show ?case
  proof (cases "iteration_resolves env k")
    case False
    from loop_rejects [OF assms(2) False, of "tracker_at env k" fs tr] show ?thesis
      unfolding ik by auto
  next
    case True
    then have "fresh_at env k \<noteq> []" using assms(4) by simp
    from loop_fresh [OF assms(2) True this, of fs tr] show ?thesis unfolding ik by simp
  qed
next
  case (Suc d)
  then have lt: "i < k" by simp
  then have ln: "i < n" using assms(2) by simp
  have q: "iteration_resolves env i" "fresh_at env i = []" using Suc.prems lt by simp_all
  have "fst (snd (iteration_loop env n (Suc i) (tracker_at env (Suc i))
          (fs @ iteration_writes env i) (iteration_actions env i tr))) \<noteq> Passed"
    using Suc.hyps(1) [of "Suc i"] Suc.hyps(2) Suc.prems lt by simp
  then show ?case using loop_quiet [OF ln q, of fs tr] by simp
qed

lemma first_stop:
  fixes n :: nat
  assumes "\<exists>i < n. P i"
  obtains k where "k < n" and "\<forall>j < k. \<not> P j" and "P k"
proof -
  define k where "k = (LEAST i. P i)"
  from assms obtain i where i: "i < n" "P i" by blast
  have 1: "P k" unfolding k_def using i(2) by (rule LeastI)
  have "k \<le> i" unfolding k_def using i(2) by (rule Least_le)
  then have 2: "k < n" using i(1) by simp
  have 3: "\<forall>j < k. \<not> P j"
    unfolding k_def using not_less_Least by blast
  from 1 2 3 that show ?thesis by blast
qed

lemma main_passes:
  assumes "boot_resolves env"
    and "\<forall>j < n. iteration_resolves env j \<and> fresh_at env j = []"
  shows "main env n =
           \<lparr>files = fst (boot_check env) @ concat (map (iteration_writes env) [0..<n]),
            exit_code = (if close_resolves env then 0 else 1),
            events = iterations_actions env [0..<n] []\<rparr>"
proof -
  have "iteration_loop env n 0 (tracker_at env 0) (fst (boot_check env)) []
        = (fst (boot_check env) @ concat (map (iteration_writes env) [0..<n]), Passed,
           iterations_actions env [0..<n] [])"
    using assms(2) by (intro loop_passes) simp
  then show ?thesis using assms(1) by (simp add: main_def)
qed

lemma main_fails:
  assumes "boot_resolves env" and "k < n"
    and "\<forall>j < k. iteration_resolves env j \<and> fresh_at env j = []"
    and "iteration_resolves env k" and "fresh_at env k \<noteq> []"
  shows "main env n =
           \<lparr>files = fst (boot_check env) @ concat (map (iteration_writes env) [0..<Suc k])
                      @ [(Errors k, ErrorsJson (fresh_at env k))],
            exit_code = 1, events = iterations_actions env [0..<Suc k] []\<rparr>"
proof -
  have "iteration_loop env n 0 (tracker_at env 0) (fst (boot_check env)) []
        = (fst (boot_check env) @ concat (map (iteration_writes env) [0..<Suc k])
             @ [(Errors k, ErrorsJson (fresh_at env k))], Failed,
           iterations_actions env [0..<Suc k] [])"
    using assms(2-5) by (intro loop_fails) simp_all
  then show ?thesis using assms(1) by (simp add: main_def)
qed

lemma main_exit_code:
  "exit_code (main env n) =
     (if boot_resolves env \<and> close_resolves env
         \<and> (\<forall>i < n. iteration_resolves env i \<and> fresh_at env i = []) then 0 else 1)"
proof (cases "boot_resolves env")
  case False
  then show ?thesis by (simp add: main_def)
next
  case True
  show ?thesis
  proof (cases "\<forall>i < n. iteration_resolves env i \<and> fresh_at env i = []")
    case all: True
    then show ?thesis using main_passes [OF True all] True by simp
  next
    case False
    then have "\<exists>i < n. \<not> (iteration_resolves env i \<and> fresh_at env i = [])" by simp
    then obtain k where k: "k < n"
      "\<forall>j < k. \<not> \<not> (iteration_resolves env j \<and> fresh_at env j = [])"
      "\<not> (iteration_resolves env k \<and> fresh_at env k = [])"
      by (rule first_stop)
    have "fst (snd (iteration_loop env n 0 (tracker_at env 0) (fst (boot_check env)) []))
          \<noteq> Passed"
      using k by (intro loop_stops [of 0 k]) simp_all
    then have "exit_code (main env n) = 1"
      using True
      by (cases "iteration_loop env n 0 (snd (boot_check env)) (fst (boot_check env)) []"
          rule: prod_cases3)
        (auto simp: main_def split: outcome.splits)
    then show ?thesis using False by simp
  qed
qed





text \<open>
  Up to the first turn that drains a record, whatever rejects on the way, the loop
  adds only artifacts of the turns up to that one, and no error file but that turn's.
\<close>

lemma loop_files_bound:
  assumes "i \<le> k" and "k < n"
    and "\<forall>j. i \<le> j \<and> j < k \<longrightarrow> fresh_at env j = []" and "fresh_at env k \<noteq> []"
  shows "\<exists>ws. fst (iteration_loop env n i (tracker_at env i) fs tr) = fs @ ws
           \<and> (\<forall>a c. (a, c) \<in> set ws \<longrightarrow>
                 (\<exists>j \<le> k. a = Shot j \<or> a = State j)
                 \<or> (a = Errors k \<and> c = ErrorsJson (fresh_at env k)))"
  using assms(1,3)
proof (induction "k - i" arbitrary: i fs tr)
  case 0
  then have ik: "i = k" by simp
  show ?case
  proof (cases "iteration_resolves env k")
    case False
    from loop_rejects [OF assms(2) False, of "tracker_at env k" fs tr]
    obtain ws e tr' where
      "iteration_loop env n k (tracker_at env k) fs tr = (fs @ ws, Rejected e, tr')"
      "fst ` set ws \<subseteq> {Shot k}" by blast
    then show ?thesis unfolding ik by (intro exI [of _ ws]) force
  next
    case True
    have w: "(\<exists>j \<le> k. a = Shot j \<or> a = State j)" if "(a, c) \<in> set (iteration_writes env k)" for a c
    proof -
      from that have "fst (a, c) \<in> fst ` set (iteration_writes env k)" by (intro imageI)
      then have "a \<in> {Shot k, State k}" using iteration_writes_names [of env k] by auto
      then show ?thesis by auto
    qed
    from loop_fresh [OF assms(2) True assms(4), of fs tr] show ?thesis
      unfolding ik
      by (intro exI [of _ "iteration_writes env k @ [(Errors k, ErrorsJson (fresh_at env k))]"])
        (use w in auto)
  qed
next
  case (Suc d)
  then have lt: "i < k" by simp
  then have ln: "i < n" using assms(2) by simp
  have q: "fresh_at env i = []" using Suc.prems lt by simp
  show ?case
  proof (cases "iteration_resolves env i")
    case False
    from loop_rejects [OF ln False, of "tracker_at env i" fs tr]
    obtain ws e tr' where
      "iteration_loop env n i (tracker_at env i) fs tr = (fs @ ws, Rejected e, tr')"
      "fst ` set ws \<subseteq> {Shot i}" by blast
    then show ?thesis using lt by (intro exI [of _ ws]) force
  next
    case True
    have w: "(\<exists>j \<le> k. a = Shot j \<or> a = State j)" if "(a, c) \<in> set (iteration_writes env i)" for a c
    proof -
      from that have "fst (a, c) \<in> fst ` set (iteration_writes env i)" by (intro imageI)
      then have "a \<in> {Shot i, State i}" using iteration_writes_names [of env i] by auto
      then have "a = Shot i \<or> a = State i" by simp
      then show ?thesis using lt by (intro exI [of _ i]) simp
    qed
    have d: "d = k - Suc i" using Suc.hyps(2) by simp
    have p: "\<forall>j. Suc i \<le> j \<and> j < k \<longrightarrow> fresh_at env j = []" using Suc.prems(2) by simp
    from Suc.hyps(1) [OF d _ p, of "fs @ iteration_writes env i" "iteration_actions env i tr"] lt
    obtain ws where ws:
      "fst (iteration_loop env n (Suc i) (tracker_at env (Suc i)) (fs @ iteration_writes env i)
              (iteration_actions env i tr)) = (fs @ iteration_writes env i) @ ws"
      "\<forall>a c. (a, c) \<in> set ws \<longrightarrow>
                 (\<exists>j \<le> k. a = Shot j \<or> a = State j)
                 \<or> (a = Errors k \<and> c = ErrorsJson (fresh_at env k))"
      by auto
    have "fst (iteration_loop env n i (tracker_at env i) fs tr)
          = fs @ (iteration_writes env i @ ws)"
      using loop_quiet [OF ln True q, of fs tr] ws(1) by simp
    then show ?thesis using w ws(2)
      by (intro exI [of _ "iteration_writes env i @ ws"]) auto
  qed
qed

lemma main_files_bound:
  assumes "k < n" and "\<forall>j < k. fresh_at env j = []" and "fresh_at env k \<noteq> []"
    and "(a, c) \<in> set (files (main env n))"
  shows "a = ErrorsBoot \<or> (\<exists>j \<le> k. a = Shot j \<or> a = State j)
         \<or> (a = Errors k \<and> c = ErrorsJson (fresh_at env k))"
proof (cases "boot_resolves env")
  case False
  then show ?thesis using assms(4) by (simp add: main_def)
next
  case True
  obtain ws where ws:
    "fst (iteration_loop env n 0 (tracker_at env 0) (fst (boot_check env)) [])
       = fst (boot_check env) @ ws"
    "\<forall>a c. (a, c) \<in> set ws \<longrightarrow>
        (\<exists>j \<le> k. a = Shot j \<or> a = State j)
        \<or> (a = Errors k \<and> c = ErrorsJson (fresh_at env k))"
    using loop_files_bound [of 0 k n env "fst (boot_check env)" "[]"] assms(1-3) by auto
  have "files (main env n)
        = fst (iteration_loop env n 0 (snd (boot_check env)) (fst (boot_check env)) [])"
    using True
    by (cases "iteration_loop env n 0 (snd (boot_check env)) (fst (boot_check env)) []"
        rule: prod_cases3)
      (auto simp: main_def split: outcome.splits)
  then have "(a, c) \<in> set (fst (boot_check env)) \<or> (a, c) \<in> set ws"
    using assms(4) ws(1) by auto
  moreover have "a = ErrorsBoot" if "(a, c) \<in> set (fst (boot_check env))"
    using that by (simp add: boot_check_files split: if_splits)
  ultimately show ?thesis using ws(2) by blast
qed

text \<open>
  Claim C2. When iteration \<open>i\<close>, within the configured count, is the first whose drain
  returns a non-empty batch, no iteration's error artifact exists but \<open>errors-<i>.json\<close>
  holding that batch; no artifact of a later iteration exists, be it a screenshot, a
  state file or an error file; and the exit status is 1. These hold whether or not an
  awaited call rejects on the way. When the awaited calls up to that drain resolve,
  \<open>errors-<i>.json\<close> is written, the iterations up to \<open>i\<close> have their screenshots, and
  the choreography ran for the iterations up to \<open>i\<close> and for no other.
\<close>

theorem fail_fast:
  assumes "i < n" and "\<forall>j < i. fresh_at env j = []" and "fresh_at env i \<noteq> []"
  shows "(boot_resolves env \<and> (\<forall>j \<le> i. iteration_resolves env j) \<longrightarrow>
           (Errors i, ErrorsJson (fresh_at env i)) \<in> set (files (main env n)))
   \<and> (\<forall>k c. (Errors k, c) \<in> set (files (main env n)) \<longrightarrow>
         k = i \<and> c = ErrorsJson (fresh_at env i))
   \<and> (\<forall>j c. i < j \<longrightarrow>
         (Shot j, c) \<notin> set (files (main env n))
         \<and> (State j, c) \<notin> set (files (main env n))
         \<and> (Errors j, c) \<notin> set (files (main env n)))
   \<and> (boot_resolves env \<and> (\<forall>j \<le> i. iteration_resolves env j) \<longrightarrow>
         (\<forall>j \<le> i. Shot j \<in> fst ` set (files (main env n))))
   \<and> (boot_resolves env \<and> (\<forall>j \<le> i. iteration_resolves env j) \<longrightarrow>
         events (main env n) = iterations_actions env [0..<Suc i] [])
   \<and> exit_code (main env n) = 1"
proof -
  note bound = main_files_bound [OF assms]
  have 2: "k = i \<and> c = ErrorsJson (fresh_at env i)"
    if "(Errors k, c) \<in> set (files (main env n))" for k c
    using bound [OF that] by auto
  have 3: "(Shot j, c) \<notin> set (files (main env n))
         \<and> (State j, c) \<notin> set (files (main env n))
         \<and> (Errors j, c) \<notin> set (files (main env n))" if "i < j" for j c
    using that bound [of "Shot j" c] bound [of "State j" c] bound [of "Errors j" c] by auto
  have 5: "exit_code (main env n) = 1"
    using assms(1,3) by (auto simp: main_exit_code)
  have rest: "(Errors i, ErrorsJson (fresh_at env i)) \<in> set (files (main env n))
      \<and> (\<forall>j \<le> i. Shot j \<in> fst ` set (files (main env n)))
      \<and> events (main env n) = iterations_actions env [0..<Suc i] []"
    if r: "boot_resolves env \<and> (\<forall>j \<le> i. iteration_resolves env j)"
  proof -
    let ?ws = "concat (map (iteration_writes env) [0..<Suc i])"
    have m: "main env n =
             \<lparr>files = fst (boot_check env) @ ?ws @ [(Errors i, ErrorsJson (fresh_at env i))],
              exit_code = 1, events = iterations_actions env [0..<Suc i] []\<rparr>"
      using assms r by (intro main_fails) simp_all
    have f: "set (files (main env n)) =
               set (fst (boot_check env)) \<union> set ?ws \<union> {(Errors i, ErrorsJson (fresh_at env i))}"
      unfolding m by (simp del: upt_Suc)
    have 4: "Shot j \<in> fst ` set (files (main env n))" if "j \<le> i" for j
    proof -
      have "Shot j \<in> fst ` set (iteration_writes env j)"
        using iteration_writes_names [of env j] r that by simp
      moreover have "j \<in> set [0..<Suc i]" using that by (simp only: set_upt) simp
      then have "set (iteration_writes env j) \<subseteq> set ?ws"
        by (auto simp del: upt_Suc set_upt)
      ultimately show ?thesis unfolding f by blast
    qed
    have "(Errors i, ErrorsJson (fresh_at env i)) \<in> set (files (main env n))"
      unfolding f by simp
    moreover have "events (main env n) = iterations_actions env [0..<Suc i] []"
      unfolding m by simp
    ultimately show ?thesis using 4 by blast
  qed
  from 2 3 5 rest show ?thesis by blast
qed

theorem fail_fast_witness:
  "(1::nat) < 5 \<and> fresh_at run_second_fails 0 = [] \<and> fresh_at run_second_fails 1 = [err_b]
   \<and> boot_resolves run_second_fails
   \<and> iteration_resolves run_second_fails 0 \<and> iteration_resolves run_second_fails 1
   \<and> main run_second_fails 5 =
       \<lparr>files = [(ErrorsBoot, ErrorsJson [err_a]),
                 (Shot 0, Png (PageScreenshot None)), (State 0, Text ''{}''),
                 (Shot 1, Png (PageScreenshot None)),
                 (Errors 1, ErrorsJson [err_b])],
        exit_code = 1,
        events = [KeyDown (KeyName ''Space''), FrameAdvance (Some (50 / 3)),
                  KeyUp (KeyName ''Space''), Sleep 250,
                  KeyDown (KeyName ''Space''), FrameAdvance (Some (50 / 3)),
                  KeyUp (KeyName ''Space''), Sleep 250]\<rparr>"
  using fail_fast [of 1 5 run_second_fails]
  by (simp add: run_second_fails_def main_def boot_check_def iteration_loop.simps
      captureScreenshot_def writeFileSync_def strategy1_def strategy2_def strategy3_def
      canvas_boundingBox_def write_state_def ingest_def drain_def new_tracker_def set_has_def
      set_add_def Let_def fresh_at_def JSON_stringify_def quote_string_def quote_char_def
      err_a_def err_b_def run_step_def step_space_def step_buttons_def new_Set_def
      step_frames_def js_or_def step_wait_def is_mouse_button_def translate_key_def KEY_MAP_def
      advance_frames.simps perform_def call_resolves_def page_willing_def
      iteration_resolves_def le_Suc_eq)

end
